theory Spec2Isabelle
  imports Main "HOL-Library.Word" "HOL-Library.Product_Lexorder"
begin

unbundle bit_operations_syntax

section \<open>Governance store (src/governance/governance.cpp)\<close>

text \<open>
  \<open>CGovernance\<close> is a key/value database (\<open>CDBWrapper\<close>) holding five families of
  entries, told apart by a leading tag byte:
  \<^item> \<open>'G'\<close> (\<open>DB_GOVERNANCE_INIT\<close>): the initialisation flag;
  \<^item> \<open>'N'\<close> (\<open>DB_NUMBER_FROZEN\<close>): the frozen counter, an \<open>unsigned int\<close>;
  \<^item> \<open>'a'\<close> (\<open>FreezeEntry\<close>): script \<open>\<mapsto>\<close> \<open>FreezeDetails.frozen\<close>;
  \<^item> \<open>'c'\<close> (\<open>CostEntry\<close>): (type, height) \<open>\<mapsto>\<close> \<open>CostDetails.cost\<close>;
  \<^item> \<open>'f'\<close> (\<open>FeeEntry\<close>): height \<open>\<mapsto>\<close> \<open>FeeDetails.script\<close>.

  The flag and the counter are written together by the one batch of \<open>Init\<close> and are never
  erased, so a database is either empty (\<open>None\<close> below, the argument of \<open>Init\<close>) or has
  both; the record describes the second kind.  The freeze family is a map; the cost and
  fee families are association lists with unique keys, which the scans of \<open>GetCost\<close> and
  \<open>GetFeeScript\<close> walk from the first entry to the last.  A batch write always succeeds
  (\<open>WriteBatch\<close> returns \<open>true\<close>).
\<close>

type_synonym script = "8 word list"
type_synonym CAmount = int

record gov_db =
  db_init :: bool
  db_number_frozen :: "32 word"
  db_freeze :: "script \<rightharpoonup> bool"
  db_cost :: "((int \<times> int) \<times> CAmount) list"
  db_fee :: "(int \<times> script) list"

text \<open>\<open>CScript() << ParseHex("6885777789")\<close>: a push of five bytes.\<close>

definition DUMMY_SCRIPT :: script where
  "DUMMY_SCRIPT = [0x05, 0x68, 0x85, 0x77, 0x77, 0x89]"

definition DUMMY_TYPE :: int where
  "DUMMY_TYPE = 0"

definition GOVERNANCE_COST_ROOT :: int where
  "GOVERNANCE_COST_ROOT = 1"

definition GOVERNANCE_COST_REISSUE :: int where
  "GOVERNANCE_COST_REISSUE = 2"

definition GOVERNANCE_COST_UNIQUE :: int where
  "GOVERNANCE_COST_UNIQUE = 3"

definition GOVERNANCE_COST_SUB :: int where
  "GOVERNANCE_COST_SUB = 4"

definition GOVERNANCE_COST_USERNAME :: int where
  "GOVERNANCE_COST_USERNAME = 5"

text \<open>
  The part of \<open>CChainParams\<close> that \<open>Init\<close> reads, of its argument and of the global
  \<open>Params()\<close>.  \<open>TokenFeeScript\<close> stands for
  \<open>GetScriptForDestination(DecodeDestination(TokenFeeAddress()))\<close>.
\<close>

record chain_params =
  RootFeeAmount :: CAmount
  ReissueFeeAmount :: CAmount
  UniqueFeeAmount :: CAmount
  SubFeeAmount :: CAmount
  UsernameFeeAmount :: CAmount
  TokenFeeScript :: script

definition COIN :: CAmount where
  "COIN = 100000000"

text \<open>
  \<open>CMainParams\<close> of src/chainparams.cpp; the script pays to the key hash of
  \<open>strTokenFeeAddress = "KdZFAFeKV8C5JzdEdgcPYDZku92KkD3fHy"\<close>.
\<close>

definition main_params :: chain_params where
  "main_params = \<lparr>
     RootFeeAmount = 10000 * COIN,
     ReissueFeeAmount = 10000 * COIN,
     UniqueFeeAmount = 100 * COIN,
     SubFeeAmount = 100 * COIN,
     UsernameFeeAmount = 1 * COIN,
     TokenFeeScript = [0x76, 0xa9, 0x14, 0x4c, 0xe0, 0xfa, 0x1e, 0xe0, 0x7d, 0x8b, 0x1a,
       0x21, 0x94, 0x3e, 0xbc, 0x66, 0x71, 0xff, 0x95, 0x4f, 0xcf, 0x35, 0xfd, 0x88, 0xac] \<rparr>"

text \<open>\<open>batch.Write\<close> on the cost and fee families: replace the value of a key or add it.\<close>

fun write_entry :: "'k \<Rightarrow> 'v \<Rightarrow> ('k \<times> 'v) list \<Rightarrow> ('k \<times> 'v) list" where
  "write_entry k v [] = [(k, v)]"
| "write_entry k v ((k', v') # es) =
     (if k' = k then (k, v) # es else (k', v') # write_entry k v es)"

text \<open>\<open>Read(entry, details)\<close>: the stored value, or \<open>None\<close> when the read fails.\<close>

fun read_entry :: "'k \<Rightarrow> ('k \<times> 'v) list \<Rightarrow> 'v option" where
  "read_entry k [] = None"
| "read_entry k ((k', v') # es) = (if k' = k then Some v' else read_entry k es)"

text \<open>
  The batch of \<open>Init\<close>, in the order of the source, on top of what the database holds.
  The amounts come from the argument \<open>chainparams\<close>; the fee address is read from the
  global \<open>Params()\<close>, the parameters of the selected network, which the model takes as
  the argument \<open>Params\<close>.
\<close>

definition init_batch ::
  "chain_params \<Rightarrow> chain_params \<Rightarrow> (script \<rightharpoonup> bool) \<Rightarrow> ((int \<times> int) \<times> CAmount) list \<Rightarrow>
     (int \<times> script) list \<Rightarrow> gov_db" where
  "init_batch chainparams Params fr co fe = \<lparr>
     db_init = True,
     db_number_frozen = 0,
     db_freeze = fr(DUMMY_SCRIPT \<mapsto> True),
     db_cost =
       write_entry (GOVERNANCE_COST_USERNAME, 0) (UsernameFeeAmount chainparams)
        (write_entry (GOVERNANCE_COST_SUB, 0) (ReissueFeeAmount chainparams)
          (write_entry (GOVERNANCE_COST_UNIQUE, 0) (UniqueFeeAmount chainparams)
            (write_entry (GOVERNANCE_COST_REISSUE, 0) (SubFeeAmount chainparams)
              (write_entry (GOVERNANCE_COST_ROOT, 0) (RootFeeAmount chainparams)
                (write_entry (DUMMY_TYPE, 0) 0 co))))),
     db_fee = write_entry 0 (TokenFeeScript Params) fe \<rparr>"

fun Init :: "bool \<Rightarrow> chain_params \<Rightarrow> chain_params \<Rightarrow> gov_db option \<Rightarrow> bool \<times> gov_db" where
  "Init fWipe chainparams Params None = (True, init_batch chainparams Params Map.empty [] [])"
| "Init fWipe chainparams Params (Some db) =
     (if fWipe \<or> db_init db = False
      then (True, init_batch chainparams Params (db_freeze db) (db_cost db) (db_fee db))
      else (True, db))"

definition GetNumberOfFrozenScripts :: "gov_db \<Rightarrow> 32 word" where
  "GetNumberOfFrozenScripts db = db_number_frozen db"

definition FreezeScript :: "script \<Rightarrow> gov_db \<Rightarrow> bool \<times> gov_db" where
  "FreezeScript s db =
     (let number = db_number_frozen db in
      case db_freeze db s of
        Some frozen \<Rightarrow>
          if \<not> frozen
          then (True, db\<lparr>db_freeze := (db_freeze db)(s \<mapsto> True), db_number_frozen := number + 1\<rparr>)
          else (True, db\<lparr>db_freeze := (db_freeze db)(s \<mapsto> frozen)\<rparr>)
      | None \<Rightarrow>
          (True, db\<lparr>db_freeze := (db_freeze db)(s \<mapsto> True), db_number_frozen := number + 1\<rparr>))"

definition UnfreezeScript :: "script \<Rightarrow> gov_db \<Rightarrow> bool \<times> gov_db" where
  "UnfreezeScript s db =
     (let number = db_number_frozen db in
      case db_freeze db s of
        Some frozen \<Rightarrow>
          if frozen
          then (True, db\<lparr>db_freeze := (db_freeze db)(s \<mapsto> False), db_number_frozen := number - 1\<rparr>)
          else (True, db\<lparr>db_freeze := (db_freeze db)(s \<mapsto> frozen)\<rparr>)
      | None \<Rightarrow> (True, db\<lparr>db_freeze := (db_freeze db)(s \<mapsto> False)\<rparr>))"

text \<open>
  The two reverts return \<open>false\<close> before anything is written when the entry is not in the
  state they undo (the log line says "database is corrupted").
\<close>

definition RevertFreezeScript :: "script \<Rightarrow> gov_db \<Rightarrow> bool \<times> gov_db" where
  "RevertFreezeScript s db =
     (let number = db_number_frozen db in
      case db_freeze db s of
        Some frozen \<Rightarrow>
          if frozen
          then (True, db\<lparr>db_number_frozen := number - 1, db_freeze := (db_freeze db)(s \<mapsto> False)\<rparr>)
          else (False, db)
      | None \<Rightarrow> (False, db))"

definition RevertUnfreezeScript :: "script \<Rightarrow> gov_db \<Rightarrow> bool \<times> gov_db" where
  "RevertUnfreezeScript s db =
     (let number = db_number_frozen db in
      case db_freeze db s of
        Some frozen \<Rightarrow>
          if \<not> frozen
          then (True, db\<lparr>db_number_frozen := number + 1, db_freeze := (db_freeze db)(s \<mapsto> True)\<rparr>)
          else (False, db)
      | None \<Rightarrow> (False, db))"

definition ScriptExist :: "script \<Rightarrow> gov_db \<Rightarrow> bool" where
  "ScriptExist s db = (db_freeze db s \<noteq> None)"

definition CanSend :: "script \<Rightarrow> gov_db \<Rightarrow> bool" where
  "CanSend s db = (case db_freeze db s of None \<Rightarrow> True | Some frozen \<Rightarrow> \<not> frozen)"

text \<open>
  \<open>GetCost\<close>: the scan starts at \<open>CostEntry()\<close>, the least key of the family, with
  \<open>height = -1\<close> and \<open>details = CostDetails()\<close> (cost 0), and takes the value of every
  entry of the type whose height is above the greatest seen so far.
\<close>

fun GetCost_scan :: "int \<Rightarrow> ((int \<times> int) \<times> CAmount) list \<Rightarrow> int \<Rightarrow> CAmount \<Rightarrow> CAmount" where
  "GetCost_scan type [] height cost = cost"
| "GetCost_scan type (((t, h), c) # es) height cost =
     (if t = type \<and> h > height then GetCost_scan type es h c
      else GetCost_scan type es height cost)"

definition GetCost :: "int \<Rightarrow> gov_db \<Rightarrow> CAmount" where
  "GetCost type db = GetCost_scan type (db_cost db) (- 1) 0"

definition known_cost_type :: "int \<Rightarrow> bool" where
  "known_cost_type type =
     (type = GOVERNANCE_COST_ROOT \<or> type = GOVERNANCE_COST_REISSUE \<or>
      type = GOVERNANCE_COST_UNIQUE \<or> type = GOVERNANCE_COST_SUB \<or>
      type = GOVERNANCE_COST_USERNAME)"

definition UpdateCost :: "CAmount \<Rightarrow> int \<Rightarrow> int \<Rightarrow> gov_db \<Rightarrow> bool \<times> gov_db" where
  "UpdateCost cost type height db =
     (if \<not> known_cost_type type then (False, db)
      else if read_entry (type, height) (db_cost db) = None
      then (True, db\<lparr>db_cost := write_entry (type, height) cost (db_cost db)\<rparr>)
      else (True, db))"

text \<open>\<open>GetFeeScript\<close> scans the fee family the same way, from \<open>FeeDetails()\<close>.\<close>

fun GetFeeScript_scan :: "(int \<times> script) list \<Rightarrow> int \<Rightarrow> script \<Rightarrow> script" where
  "GetFeeScript_scan [] height s = s"
| "GetFeeScript_scan ((h, s') # es) height s =
     (if h > height then GetFeeScript_scan es h s' else GetFeeScript_scan es height s)"

definition GetFeeScript :: "gov_db \<Rightarrow> script" where
  "GetFeeScript db = GetFeeScript_scan (db_fee db) (- 1) DUMMY_SCRIPT"

definition UpdateFeeScript :: "script \<Rightarrow> int \<Rightarrow> gov_db \<Rightarrow> bool \<times> gov_db" where
  "UpdateFeeScript s height db =
     (if read_entry height (db_fee db) = None
      then (True, db\<lparr>db_fee := write_entry height s (db_fee db)\<rparr>)
      else (True, db))"

text \<open>A sequence of calls on the freeze list, each on the store the previous one left.\<close>

datatype freeze_call =
  CallFreeze script
| CallUnfreeze script
| CallRevertFreeze script
| CallRevertUnfreeze script

fun run_call :: "freeze_call \<Rightarrow> gov_db \<Rightarrow> gov_db" where
  "run_call (CallFreeze s) db = snd (FreezeScript s db)"
| "run_call (CallUnfreeze s) db = snd (UnfreezeScript s db)"
| "run_call (CallRevertFreeze s) db = snd (RevertFreezeScript s db)"
| "run_call (CallRevertUnfreeze s) db = snd (RevertUnfreezeScript s db)"

fun run_calls :: "freeze_call list \<Rightarrow> gov_db \<Rightarrow> gov_db" where
  "run_calls [] db = db"
| "run_calls (c # cs) db = run_calls cs (run_call c db)"

text \<open>The scripts that may not send: those for which \<open>CanSend\<close> returns \<open>false\<close>.\<close>

definition blocked_scripts :: "gov_db \<Rightarrow> script set" where
  "blocked_scripts db = {s. \<not> CanSend s db}"

text \<open>
  The relation between the counter and the scripts that may not send which \<open>Init\<close>
  sets up and every call on the freeze list keeps: one more script is blocked than the
  counter says, in 32-bit arithmetic.
\<close>

definition counter_inv :: "gov_db \<Rightarrow> bool" where
  "counter_inv db = (finite (blocked_scripts db) \<and>
      (of_nat (card (blocked_scripts db)) :: 32 word) = db_number_frozen db + 1)"

section \<open>Proof of work and retargeting (pow.cpp)\<close>

subsection \<open>256-bit unsigned integers and compact targets\<close>

text \<open>
  Modelled from the spec: the class \<open>arith_uint256\<close> (arith_uint256.h and .cpp, which
  pow.cpp includes) is not among the sources.  The spec's glossary has the compact target
  as "a 4-byte exponent+mantissa encoding of a 256-bit bound" and its data model has the
  bounds as 256-bit values; the definitions below are the encoding of the Bitcoin Core
  class of that name.  A 256-bit value is a \<open>256 word\<close>: \<open>*\<close> wraps at \<open>2^256\<close>,
  \<open>div\<close> and the comparisons are unsigned.  \<open>bits\<close> is the position of the highest set bit
  plus one (0 for 0).  \<open>SetCompact\<close> returns the value with the flags \<open>fNegative\<close> and
  \<open>fOverflow\<close>; \<open>GetCompact\<close> is called with \<open>fNegative = false\<close>.
\<close>

type_synonym uint256 = "256 word"

fun bit_length :: "nat \<Rightarrow> nat" where
  "bit_length n = (if n = 0 then 0 else Suc (bit_length (n div 2)))"

declare bit_length.simps [simp del]

definition bits :: "uint256 \<Rightarrow> nat" where
  "bits bn = bit_length (unat bn)"

definition SetCompact :: "32 word \<Rightarrow> uint256 \<times> bool \<times> bool" where
  "SetCompact nCompact =
     (let nSize = unat (drop_bit 24 nCompact);
          nWord0 = nCompact AND 0x007fffff;
          nWord = (if nSize \<le> 3 then drop_bit (8 * (3 - nSize)) nWord0 else nWord0);
          bn = (if nSize \<le> 3 then ucast nWord else push_bit (8 * (nSize - 3)) (ucast nWord));
          fNegative = (nWord \<noteq> 0 \<and> nCompact AND 0x00800000 \<noteq> 0);
          fOverflow = (nWord \<noteq> 0 \<and>
             (nSize > 34 \<or> (nWord > 0xff \<and> nSize > 33) \<or> (nWord > 0xffff \<and> nSize > 32)))
      in (bn, fNegative, fOverflow))"

definition GetCompact :: "uint256 \<Rightarrow> 32 word" where
  "GetCompact bn =
     (let nSize = (bits bn + 7) div 8;
          nCompact = (if nSize \<le> 3 then push_bit (8 * (3 - nSize)) (ucast bn)
                      else ucast (drop_bit (8 * (nSize - 3)) bn));
          shifted = (nCompact AND 0x00800000 \<noteq> 0);
          nCompact' = (if shifted then drop_bit 8 nCompact else nCompact);
          nSize' = (if shifted then nSize + 1 else nSize)
      in nCompact' OR push_bit 24 (of_nat nSize'))"

subsection \<open>The block index and the consensus parameters\<close>

text \<open>
  Of \<open>CBlockIndex\<close> the retarget code reads the pointer \<open>pprev\<close> (\<open>NULL\<close> is \<open>None\<close>),
  \<open>nTime\<close>, \<open>nBits\<close> and the proof-of-stake flag; of \<open>Consensus::Params\<close> the two limits,
  the two \<open>int64_t\<close> time constants and the two no-retargeting flags.  \<open>int64_t\<close> values
  are integers: signed overflow is undefined in the source, and the theorems below bound
  the parameters so that none occurs.
\<close>

datatype CBlockIndex =
  CBlockIndex (pprev: "CBlockIndex option") (nTime: "32 word") (nBits: "32 word")
    (IsProofOfStake: bool)

record consensus_params =
  powLimit :: uint256
  posLimit :: uint256
  nTargetTimespan :: int
  nTargetSpacing :: int
  fPowNoRetargeting :: bool
  fPosNoRetargeting :: bool

datatype pow_error = DivisionByZero

definition GetBlockTime :: "CBlockIndex \<Rightarrow> int" where
  "GetBlockTime pindex = uint (nTime pindex)"

text \<open>\<open>/\<close> on \<open>int64_t\<close> truncates towards zero.\<close>

definition c_div :: "int \<Rightarrow> int \<Rightarrow> int" where
  "c_div a b = sgn a * sgn b * (\<bar>a\<bar> div \<bar>b\<bar>)"

text \<open>
  Modelled from the spec: \<open>GetLastBlockIndex\<close> is declared outside the sources.  The spec
  has \<open>pindexPrev\<close> as "the latest block of the same kind": the walk goes back from the
  given block while the kind differs and a predecessor exists.
\<close>

fun GetLastBlockIndex :: "CBlockIndex \<Rightarrow> bool \<Rightarrow> CBlockIndex" where
  "GetLastBlockIndex (CBlockIndex None t b k) fProofOfStake = CBlockIndex None t b k"
| "GetLastBlockIndex (CBlockIndex (Some p) t b k) fProofOfStake =
     (if k \<noteq> fProofOfStake then GetLastBlockIndex p fProofOfStake
      else CBlockIndex (Some p) t b k)"

definition GetTargetLimit :: "int \<Rightarrow> bool \<Rightarrow> consensus_params \<Rightarrow> uint256" where
  "GetTargetLimit t fProofOfStake params =
     (if fProofOfStake then posLimit params else powLimit params)"

text \<open>
  \<open>CalculateNextTargetRequired\<close>.  \<open>bnNew *= x\<close> with an \<open>int64_t\<close> \<open>x\<close> takes the
  \<open>uint32_t\<close> overload of the class (the integral conversion wins over the constructor
  from \<open>uint64_t\<close>), \<open>bnNew /= y\<close> converts \<open>y\<close> to \<open>uint64_t\<close> and then to 256 bits
  and throws on 0; a zero \<open>nTargetSpacing\<close> divides by zero before that.
\<close>

definition CalculateNextTargetRequired ::
  "CBlockIndex \<Rightarrow> int \<Rightarrow> consensus_params \<Rightarrow> pow_error + 32 word" where
  "CalculateNextTargetRequired pindexLast nFirstBlockTime params =
     (let fProofOfStake = IsProofOfStake pindexLast in
      if \<not> fProofOfStake \<and> fPowNoRetargeting params then Inr (nBits pindexLast)
      else if fProofOfStake \<and> fPosNoRetargeting params then Inr (nBits pindexLast)
      else
        let spacing = nTargetSpacing params;
            nActualSpacing0 = GetBlockTime pindexLast - nFirstBlockTime;
            nActualSpacing1 = (if nActualSpacing0 < 0 then spacing else nActualSpacing0);
            nActualSpacing = (if nActualSpacing1 > spacing * 10 then spacing * 10
                              else nActualSpacing1);
            bnTargetLimit = GetTargetLimit (GetBlockTime pindexLast) fProofOfStake params;
            bnNew0 = fst (SetCompact (nBits pindexLast))
        in if spacing = 0 then Inl DivisionByZero
           else
             let nInterval = c_div (nTargetTimespan params) spacing;
                 factor = (word_of_int ((nInterval - 1) * spacing + nActualSpacing + nActualSpacing)
                            :: 32 word);
                 bnNew1 = bnNew0 * ucast factor;
                 divisor = (word_of_int ((nInterval + 1) * spacing) :: 64 word)
             in if divisor = 0 then Inl DivisionByZero
                else
                  let bnNew2 = bnNew1 div ucast divisor;
                      bnNew = (if bnNew2 \<le> 0 \<or> bnNew2 > bnTargetLimit then bnTargetLimit
                               else bnNew2)
                  in Inr (GetCompact bnNew))"

definition GetNextTargetRequired ::
  "CBlockIndex option \<Rightarrow> bool \<Rightarrow> consensus_params \<Rightarrow> pow_error + 32 word" where
  "GetNextTargetRequired pindexLast fProofOfStake params =
     (let nTargetLimit = GetCompact (if fProofOfStake then posLimit params else powLimit params)
      in case pindexLast of
           None \<Rightarrow> Inr nTargetLimit
         | Some tip \<Rightarrow>
             let pindexPrev = GetLastBlockIndex tip fProofOfStake in
             case pprev pindexPrev of
               None \<Rightarrow> Inr nTargetLimit
             | Some prev \<Rightarrow>
                 let pindexPrevPrev = GetLastBlockIndex prev fProofOfStake in
                 case pprev pindexPrevPrev of
                   None \<Rightarrow> Inr nTargetLimit
                 | Some _ \<Rightarrow>
                     CalculateNextTargetRequired pindexPrev (GetBlockTime pindexPrevPrev) params)"

definition CheckProofOfWork :: "uint256 \<Rightarrow> 32 word \<Rightarrow> consensus_params \<Rightarrow> bool" where
  "CheckProofOfWork hash nBits' params =
     (case SetCompact nBits' of
        (bnTarget, fNegative, fOverflow) \<Rightarrow>
          if fNegative \<or> bnTarget = 0 \<or> fOverflow \<or> bnTarget > powLimit params then False
          else if hash > bnTarget then False
          else True)"

subsection \<open>The retarget rule in the words of the spec\<close>

text \<open>
  Section 4.2 of the spec, steps 5 to 8, on unbounded integers: the spacing clamped into
  \<open>[targetSpacing, 10 * targetSpacing]\<close> from a negative or too large value, the new target
  \<open>prevTarget * ((interval - 1) * targetSpacing + 2 * actualSpacing) /
  ((interval + 1) * targetSpacing)\<close>, saturated into \<open>(0, targetLimit]\<close>, and its compact
  encoding.
\<close>

definition spec_actual_spacing :: "int \<Rightarrow> int \<Rightarrow> int" where
  "spec_actual_spacing targetSpacing d =
     (if d < 0 then targetSpacing else if d > 10 * targetSpacing then 10 * targetSpacing else d)"

definition spec_new_target :: "int \<Rightarrow> int \<Rightarrow> int \<Rightarrow> int \<Rightarrow> int" where
  "spec_new_target prevTarget interval targetSpacing actualSpacing =
     prevTarget * ((interval - 1) * targetSpacing + 2 * actualSpacing)
       div ((interval + 1) * targetSpacing)"

definition spec_saturate :: "int \<Rightarrow> int \<Rightarrow> int" where
  "spec_saturate targetLimit t = (if 0 < t \<and> t \<le> targetLimit then t else targetLimit)"

definition spec_next_bits :: "CBlockIndex \<Rightarrow> int \<Rightarrow> consensus_params \<Rightarrow> 32 word" where
  "spec_next_bits prev prevPrevTime params =
     (let targetSpacing = nTargetSpacing params;
          interval = nTargetTimespan params div targetSpacing;
          actualSpacing = spec_actual_spacing targetSpacing (uint (nTime prev) - prevPrevTime);
          targetLimit = uint (if IsProofOfStake prev then posLimit params else powLimit params);
          prevTarget = uint (fst (SetCompact (nBits prev)))
      in GetCompact (word_of_int
           (spec_saturate targetLimit
              (spec_new_target prevTarget interval targetSpacing actualSpacing))))"

text \<open>
  The history \<open>GetNextTargetRequired\<close> asks for before it retargets: the latest block of
  the kind has a predecessor, and so has the latest block of the kind before it.
\<close>

definition enough_history :: "CBlockIndex \<Rightarrow> bool \<Rightarrow> bool" where
  "enough_history tip fProofOfStake =
     (case pprev (GetLastBlockIndex tip fProofOfStake) of
        None \<Rightarrow> False
      | Some prev \<Rightarrow> pprev (GetLastBlockIndex prev fProofOfStake) \<noteq> None)"

text \<open>
  The consensus parameters of \<open>CMainParams\<close> and \<open>CTestNetParams\<close> (src/chainparams.cpp),
  the test network's genesis block, and proof-of-work blocks on top of it.
\<close>

definition main_consensus :: consensus_params where
  "main_consensus = \<lparr>
     powLimit = 0x003fffffffffffffffffffffffffffffffffffffffffffffffffffffffffffff,
     posLimit = 0x000000000000ffffffffffffffffffffffffffffffffffffffffffffffffffff,
     nTargetTimespan = 16 * 60,
     nTargetSpacing = 64,
     fPowNoRetargeting = False,
     fPosNoRetargeting = False \<rparr>"

definition test_params :: consensus_params where
  "test_params = \<lparr>
     powLimit = 0x003fffffffffffffffffffffffffffffffffffffffffffffffffffffffffffff,
     posLimit = 0x000000000000ffffffffffffffffffffffffffffffffffffffffffffffffffff,
     nTargetTimespan = 16 * 60,
     nTargetSpacing = 64,
     fPowNoRetargeting = True,
     fPosNoRetargeting = True \<rparr>"

definition test_genesis :: CBlockIndex where
  "test_genesis = CBlockIndex None 1630926558 0x1f3fffff False"

definition pow_block :: "32 word \<Rightarrow> 32 word \<Rightarrow> CBlockIndex" where
  "pow_block t b = CBlockIndex (Some test_genesis) t b False"

definition pow_chain :: CBlockIndex where
  "pow_chain = pow_block 1000128 0x1e0fffff"

section \<open>Least-recently-used cache (src/tokens/tokentypes.h)\<close>

text \<open>
  \<open>CLRUCache\<close> holds a \<open>std::list\<close> of key/value pairs, most recently used first, and an
  \<open>unordered_map\<close> from keys to iterators into that list.  A list iterator names a node
  and stays valid until that node is erased, so a node carries an identity here: the list
  is a list of (node, key, value), a new node takes the identity \<open>next_node\<close>, and the map
  is an association list with unique keys from keys to node identities.  \<open>size_t\<close> values
  are natural numbers.
\<close>

record ('k, 'v) CLRUCache =
  cacheItemsList :: "(nat \<times> 'k \<times> 'v) list"
  cacheItemsMap :: "('k \<times> nat) list"
  maxSize :: nat
  next_node :: nat

datatype lru_error = RangeError

text \<open>\<open>CLRUCache(max_size)\<close>, and \<open>CLRUCache()\<close>, which calls \<open>SetNull\<close>.\<close>

definition new_cache :: "nat \<Rightarrow> ('k, 'v) CLRUCache" where
  "new_cache max_size =
     \<lparr>cacheItemsList = [], cacheItemsMap = [], maxSize = max_size, next_node = 0\<rparr>"

text \<open>\<open>cacheItemsList.erase(it)\<close>: the node of that identity leaves the list.\<close>

definition list_erase :: "nat \<Rightarrow> (nat \<times> 'k \<times> 'v) list \<Rightarrow> (nat \<times> 'k \<times> 'v) list" where
  "list_erase i xs = filter (\<lambda>node. fst node \<noteq> i) xs"

text \<open>\<open>cacheItemsMap.erase(key)\<close>.\<close>

definition map_erase :: "'k \<Rightarrow> ('k \<times> nat) list \<Rightarrow> ('k \<times> nat) list" where
  "map_erase k m = filter (\<lambda>e. fst e \<noteq> k) m"

definition Put :: "'k \<Rightarrow> 'v \<Rightarrow> ('k, 'v) CLRUCache \<Rightarrow> ('k, 'v) CLRUCache" where
  "Put key val c =
     (let it = read_entry key (cacheItemsMap c);
          n = next_node c;
          pushed = (n, key, val) # cacheItemsList c;
          list1 = (case it of Some i \<Rightarrow> list_erase i pushed | None \<Rightarrow> pushed);
          map1 = (case it of Some i \<Rightarrow> map_erase key (cacheItemsMap c)
                  | None \<Rightarrow> cacheItemsMap c);
          map2 = write_entry key n map1
      in if length map2 > maxSize c
         then c\<lparr>cacheItemsList := butlast list1,
                 cacheItemsMap := map_erase (fst (snd (last list1))) map2,
                 next_node := Suc n\<rparr>
         else c\<lparr>cacheItemsList := list1, cacheItemsMap := map2, next_node := Suc n\<rparr>)"

definition Erase :: "'k \<Rightarrow> ('k, 'v) CLRUCache \<Rightarrow> ('k, 'v) CLRUCache" where
  "Erase key c =
     (case read_entry key (cacheItemsMap c) of
        Some i \<Rightarrow> c\<lparr>cacheItemsList := list_erase i (cacheItemsList c),
                      cacheItemsMap := map_erase key (cacheItemsMap c)\<rparr>
      | None \<Rightarrow> c)"

text \<open>
  \<open>Get\<close> throws \<open>std::range_error\<close> for a key that is not in the map; otherwise it splices
  the node to the front of the list and returns its value.
\<close>

definition Get :: "'k \<Rightarrow> ('k, 'v) CLRUCache \<Rightarrow> lru_error + ('v \<times> ('k, 'v) CLRUCache)" where
  "Get key c =
     (case read_entry key (cacheItemsMap c) of
        None \<Rightarrow> Inl RangeError
      | Some i \<Rightarrow>
          (case filter (\<lambda>node. fst node = i) (cacheItemsList c) of
             [] \<Rightarrow> Inl RangeError
           | node # _ \<Rightarrow>
               Inr (snd (snd node),
                    c\<lparr>cacheItemsList := node # list_erase i (cacheItemsList c)\<rparr>)))"

definition Exists :: "'k \<Rightarrow> ('k, 'v) CLRUCache \<Rightarrow> bool" where
  "Exists key c = (read_entry key (cacheItemsMap c) \<noteq> None)"

definition Size :: "('k, 'v) CLRUCache \<Rightarrow> nat" where
  "Size c = length (cacheItemsMap c)"

definition Clear :: "('k, 'v) CLRUCache \<Rightarrow> ('k, 'v) CLRUCache" where
  "Clear c = c\<lparr>cacheItemsMap := [], cacheItemsList := []\<rparr>"

definition MaxSize :: "('k, 'v) CLRUCache \<Rightarrow> nat" where
  "MaxSize c = maxSize c"

definition SetSize :: "nat \<Rightarrow> ('k, 'v) CLRUCache \<Rightarrow> ('k, 'v) CLRUCache" where
  "SetSize n c = c\<lparr>maxSize := n\<rparr>"

text \<open>A sequence of operations; a \<open>Get\<close> that throws leaves the cache as it was.\<close>

datatype ('k, 'v) lru_op = OpPut 'k 'v | OpGet 'k | OpErase 'k | OpClear | OpSetSize nat

fun lru_step :: "('k, 'v) lru_op \<Rightarrow> ('k, 'v) CLRUCache \<Rightarrow> ('k, 'v) CLRUCache" where
  "lru_step (OpPut k v) c = Put k v c"
| "lru_step (OpGet k) c = (case Get k c of Inl e \<Rightarrow> c | Inr r \<Rightarrow> snd r)"
| "lru_step (OpErase k) c = Erase k c"
| "lru_step OpClear c = Clear c"
| "lru_step (OpSetSize n) c = SetSize n c"

fun lru_run :: "('k, 'v) lru_op list \<Rightarrow> ('k, 'v) CLRUCache \<Rightarrow> ('k, 'v) CLRUCache" where
  "lru_run [] c = c"
| "lru_run (x # xs) c = lru_run xs (lru_step x c)"

text \<open>
  A sequence of operations in which no \<open>SetSize\<close> puts the bound below the number of
  entries the cache holds at that moment.
\<close>

fun SetSize_not_below :: "('k, 'v) lru_op list \<Rightarrow> ('k, 'v) CLRUCache \<Rightarrow> bool" where
  "SetSize_not_below [] c = True"
| "SetSize_not_below (x # xs) c =
     ((case x of OpSetSize m \<Rightarrow> Size c \<le> m | _ \<Rightarrow> True) \<and>
      SetSize_not_below xs (lru_step x c))"

text \<open>
  \<open>GetItemsList\<close>: the list of key/value pairs as the caller sees it, most recently used
  first (node identities are not visible).
\<close>

definition GetItemsList :: "('k, 'v) CLRUCache \<Rightarrow> ('k \<times> 'v) list" where
  "GetItemsList c = map snd (cacheItemsList c)"

text \<open>The keys of the map and the keys of the list.\<close>

definition map_keys :: "('k, 'v) CLRUCache \<Rightarrow> 'k set" where
  "map_keys c = fst ` set (cacheItemsMap c)"

definition list_keys :: "('k, 'v) CLRUCache \<Rightarrow> 'k set" where
  "list_keys c = (\<lambda>node. fst (snd node)) ` set (cacheItemsList c)"

text \<open>The map entry that belongs to a node of the list.\<close>

definition node_pair :: "nat \<times> 'k \<times> 'v \<Rightarrow> 'k \<times> nat" where
  "node_pair node = (fst (snd node), fst node)"

text \<open>
  Map and list in step: node identities and keys are unique, the map's entries are the
  (key, node) pairs of the list's nodes, and every node is older than \<open>next_node\<close>.
\<close>

definition lru_inv :: "('k, 'v) CLRUCache \<Rightarrow> bool" where
  "lru_inv c =
     (distinct (map fst (cacheItemsList c)) \<and>
      distinct (map fst (cacheItemsMap c)) \<and>
      set (cacheItemsMap c) = (\<lambda>node. (fst (snd node), fst node)) ` set (cacheItemsList c) \<and>
      list_all (\<lambda>node. fst node < next_node c) (cacheItemsList c))"

section \<open>Block template assembler (miner.cpp)\<close>

subsection \<open>The mempool as the assembler reads it\<close>

text \<open>
  Modelled from the spec: the mempool (txmempool.h and .cpp) and the declarations of
  miner.h are not among the sources.  The spec's data model has a mempool entry as "a
  transaction plus precomputed size, sigop cost, fee, entry time, and ancestor/descendant
  aggregates: (count, total size, total modified fee, total sigop cost)", and its mempool
  operations \<open>CalculateMemPoolAncestors\<close> ("populates ancestors under parents") and
  \<open>CalculateDescendants\<close> ("closure under the children relation").  An entry is read
  through its getters; a \<open>txiter\<close> is an iterator into \<open>mapTx\<close> and carries an identity
  here, which also stands for the order of the transaction hashes.  \<open>mapTx\<close> lists the
  entries in the order of the \<open>ancestor_score\<close> index.  \<open>IsFinalTx\<close> is the finality of the
  entry's transaction at the height and lock-time cutoff of the template.

  Numbers are integers, and unsigned arithmetic is written out: \<open>uint64\<close> is the
  conversion to \<open>uint64_t\<close> and \<open>uint32\<close> the one to \<open>unsigned int\<close>, applied
  wherever the source adds, subtracts or multiplies in that type (\<open>packageSize\<close>,
  \<open>nSizeWithAncestors\<close>, \<open>nBlockWeight\<close>, \<open>nBlockTx\<close>, \<open>nBlockSigOpsCost\<close> are
  \<open>uint64_t\<close>, \<open>nBlockMaxWeight\<close> is \<open>unsigned int\<close>).  Fees and the sigop aggregates
  are \<open>int64_t\<close>, the counters are \<open>int\<close>: signed arithmetic, which is undefined when it
  overflows, is that of the integers.
\<close>

definition uint64 :: "int \<Rightarrow> int" where
  "uint64 x = x mod 2 ^ 64"

definition uint32 :: "int \<Rightarrow> int" where
  "uint32 x = x mod 2 ^ 32"

type_synonym txiter = nat

record CTxMemPoolEntry =
  GetTxSize :: int
  GetTxWeight :: int
  GetFee :: int
  GetModifiedFee :: int
  GetSigOpCost :: int
  GetCountWithAncestors :: int
  GetSizeWithAncestors :: int
  GetModFeesWithAncestors :: int
  GetSigOpCostWithAncestors :: int
  IsFinalTx :: bool

record CTxMemPool =
  mapTx :: "txiter list"
  entry :: "txiter \<Rightarrow> CTxMemPoolEntry"
  CalculateMemPoolAncestors :: "txiter \<Rightarrow> txiter list"
  CalculateDescendants :: "txiter \<Rightarrow> txiter list"

text \<open>
  Modelled from the spec: \<open>CTxMemPoolModifiedEntry\<close> and \<open>update_for_parent_inclusion\<close>
  (miner.h).  A modified entry starts as a copy of the entry's ancestor aggregates, and
  "each modified entry has its aggregate reduced by the already-included ancestor's
  statistics".
\<close>

record CTxMemPoolModifiedEntry =
  iter :: txiter
  nSizeWithAncestors :: int
  nModFeesWithAncestors :: int
  nSigOpCostWithAncestors :: int

definition ModifiedEntry :: "CTxMemPool \<Rightarrow> txiter \<Rightarrow> CTxMemPoolModifiedEntry" where
  "ModifiedEntry pool it =
     \<lparr>iter = it,
      nSizeWithAncestors = GetSizeWithAncestors (entry pool it),
      nModFeesWithAncestors = GetModFeesWithAncestors (entry pool it),
      nSigOpCostWithAncestors = GetSigOpCostWithAncestors (entry pool it)\<rparr>"

definition update_for_parent_inclusion ::
  "CTxMemPool \<Rightarrow> txiter \<Rightarrow> CTxMemPoolModifiedEntry \<Rightarrow> CTxMemPoolModifiedEntry" where
  "update_for_parent_inclusion pool it e =
     e\<lparr>nSizeWithAncestors := uint64 (nSizeWithAncestors e - GetTxSize (entry pool it)),
       nModFeesWithAncestors := nModFeesWithAncestors e - GetModifiedFee (entry pool it),
       nSigOpCostWithAncestors := nSigOpCostWithAncestors e - GetSigOpCost (entry pool it)\<rparr>"

subsection \<open>The assembler\<close>

text \<open>
  The constants of one template build: \<open>nBlockMaxWeight\<close> as the constructor leaves it,
  \<open>MAX_BLOCK_SIGOPS_COST\<close> (consensus.h, not among the sources),
  \<open>blockMinFeeRate.GetFee\<close> and the comparison \<open>CompareModifiedEntry\<close> of the
  \<open>ancestor_score\<close> index of \<open>mapModifiedTx\<close> (miner.h, not among the sources; both are
  left open, the theorems hold for every fee function and every comparison).
\<close>

record assembler_options =
  nBlockMaxWeight :: int
  MAX_BLOCK_SIGOPS_COST :: int
  blockMinFee :: "int \<Rightarrow> int"
  CompareModifiedEntry :: "CTxMemPoolModifiedEntry \<Rightarrow> CTxMemPoolModifiedEntry \<Rightarrow> bool"

definition WITNESS_SCALE_FACTOR :: int where
  "WITNESS_SCALE_FACTOR = 4"

text \<open>
  The constructor: "Limit weight to between 4K and MAX_BLOCK_WEIGHT-4K for sanity".
  \<open>limit\<close> is the value of \<open>GetMaxBlockWeight() - 4000\<close> and \<open>n\<close> that of
  \<open>options.nBlockMaxWeight\<close>, both as the \<open>size_t\<close> that \<open>std::min<size_t>\<close> compares; the
  result is stored in the \<open>unsigned int\<close> member.
\<close>

definition clamp_nBlockMaxWeight :: "int \<Rightarrow> int \<Rightarrow> int" where
  "clamp_nBlockMaxWeight limit n = uint32 (max 4000 (min limit n))"

text \<open>
  The assembler's members, the lists of the template that \<open>AddToBlock\<close> extends, the
  counters of \<open>CreateNewBlock\<close> and the locals of \<open>addPackageTxs\<close>.  \<open>vtx\<close> holds the
  transactions that \<open>AddToBlock\<close> appends to \<open>pblock->vtx\<close>, in order; they come after the
  dummy coinbase (and coinstake) that \<open>CreateNewBlock\<close> puts first.  \<open>mi\<close> is the rest of
  \<open>mapTx\<close> from the cursor on; \<open>mapModifiedTx\<close> has one entry per \<open>iter\<close>.
\<close>

record BlockAssembler =
  vtx :: "txiter list"
  vTxFees :: "int list"
  vTxSigOpsCost :: "int list"
  inBlock :: "txiter list"
  nBlockWeight :: int
  nBlockSigOpsCost :: int
  nBlockTx :: int
  nFees :: int
  mi :: "txiter list"
  mapModifiedTx :: "CTxMemPoolModifiedEntry list"
  failedTx :: "txiter list"
  nConsecutiveFailed :: int
  nPackagesSelected :: int
  nDescendantsUpdated :: int

datatype assembler_error = AssertionFailed | NotInMempool

datatype loop_result = Continue BlockAssembler | Break BlockAssembler | Failure assembler_error

definition resetBlock :: "BlockAssembler \<Rightarrow> BlockAssembler" where
  "resetBlock st =
     st\<lparr>inBlock := [], nBlockWeight := 4000, nBlockSigOpsCost := 400, nBlockTx := 0, nFees := 0\<rparr>"

definition onlyUnconfirmed :: "BlockAssembler \<Rightarrow> txiter list \<Rightarrow> txiter list" where
  "onlyUnconfirmed st testSet = filter (\<lambda>it. it \<notin> set (inBlock st)) testSet"

text \<open>
  \<open>TestPackage(uint64_t packageSize, int64_t packageSigOpsCost)\<close>: both sums are
  \<open>uint64_t\<close> sums, and both comparisons are unsigned.
\<close>

definition TestPackage :: "assembler_options \<Rightarrow> BlockAssembler \<Rightarrow> int \<Rightarrow> int \<Rightarrow> bool" where
  "TestPackage opts st packageSize packageSigOpsCost =
     (if uint64 (nBlockWeight st + uint64 (WITNESS_SCALE_FACTOR * packageSize))
           \<ge> nBlockMaxWeight opts then False
      else if uint64 (nBlockSigOpsCost st + packageSigOpsCost)
           \<ge> uint64 (MAX_BLOCK_SIGOPS_COST opts) then False
      else True)"

definition TestPackageTransactions :: "CTxMemPool \<Rightarrow> txiter list \<Rightarrow> bool" where
  "TestPackageTransactions pool package = list_all (\<lambda>it. IsFinalTx (entry pool it)) package"

definition AddToBlock :: "CTxMemPool \<Rightarrow> txiter \<Rightarrow> BlockAssembler \<Rightarrow> BlockAssembler" where
  "AddToBlock pool it st =
     st\<lparr>vtx := vtx st @ [it],
        vTxFees := vTxFees st @ [GetFee (entry pool it)],
        vTxSigOpsCost := vTxSigOpsCost st @ [GetSigOpCost (entry pool it)],
        nBlockWeight := uint64 (nBlockWeight st + GetTxWeight (entry pool it)),
        nBlockTx := uint64 (nBlockTx st + 1),
        nBlockSigOpsCost := uint64 (nBlockSigOpsCost st + GetSigOpCost (entry pool it)),
        nFees := nFees st + GetFee (entry pool it),
        inBlock := List.insert it (inBlock st)\<rparr>"

text \<open>
  \<open>UpdatePackagesForAdded\<close>: for every added entry and every descendant of it that is not
  among the added ones, the descendant's modified entry is created from the mempool's
  aggregates or looked up, and reduced by the added entry's size, fee and sigop cost.
  The result is the number of updates and the new \<open>mapModifiedTx\<close>.
\<close>

definition update_descendant ::
  "CTxMemPool \<Rightarrow> txiter list \<Rightarrow> txiter \<Rightarrow> txiter \<Rightarrow>
     int \<times> CTxMemPoolModifiedEntry list \<Rightarrow> int \<times> CTxMemPoolModifiedEntry list" where
  "update_descendant pool alreadyAdded it desc acc =
     (if desc \<in> set alreadyAdded then acc
      else
        (fst acc + 1,
         if list_all (\<lambda>e. iter e \<noteq> desc) (snd acc)
         then snd acc @ [update_for_parent_inclusion pool it (ModifiedEntry pool desc)]
         else map (\<lambda>e. if iter e = desc then update_for_parent_inclusion pool it e else e)
                (snd acc)))"

definition UpdatePackagesForAdded ::
  "CTxMemPool \<Rightarrow> txiter list \<Rightarrow> CTxMemPoolModifiedEntry list \<Rightarrow>
     int \<times> CTxMemPoolModifiedEntry list" where
  "UpdatePackagesForAdded pool alreadyAdded ms =
     fold (\<lambda>it acc. fold (update_descendant pool alreadyAdded it) (CalculateDescendants pool it) acc)
       alreadyAdded (0, ms)"

definition SkipMapTxEntry :: "txiter \<Rightarrow> BlockAssembler \<Rightarrow> bool" where
  "SkipMapTxEntry it st =
     (\<not> list_all (\<lambda>e. iter e \<noteq> it) (mapModifiedTx st) \<or> it \<in> set (inBlock st) \<or>
      it \<in> set (failedTx st))"

text \<open>
  Modelled from the spec: \<open>CompareTxIterByAncestorCount\<close> (txmempool.h).  "Sort the package
  by ancestor count (topological)"; entries of equal count are ordered by hash.
\<close>

definition SortForBlock :: "CTxMemPool \<Rightarrow> txiter list \<Rightarrow> txiter list" where
  "SortForBlock pool package =
     sort_key (\<lambda>it. (GetCountWithAncestors (entry pool it), it)) package"

text \<open>
  \<open>mapModifiedTx.get<ancestor_score>().begin()\<close>: the entry that the comparison puts
  first, \<open>None\<close> for the empty set.
\<close>

fun best_modified ::
  "(CTxMemPoolModifiedEntry \<Rightarrow> CTxMemPoolModifiedEntry \<Rightarrow> bool) \<Rightarrow>
     CTxMemPoolModifiedEntry list \<Rightarrow> CTxMemPoolModifiedEntry option" where
  "best_modified cmp [] = None"
| "best_modified cmp (e # es) =
     (case best_modified cmp es of
        None \<Rightarrow> Some e
      | Some b \<Rightarrow> if cmp b e then Some b else Some e)"

definition erase_modified :: "txiter \<Rightarrow> CTxMemPoolModifiedEntry list \<Rightarrow> CTxMemPoolModifiedEntry list" where
  "erase_modified it ms = filter (\<lambda>e. iter e \<noteq> it) ms"

text \<open>
  The head of the loop body: which transaction to evaluate, the next entry of \<open>mapTx\<close> or
  the best of \<open>mapModifiedTx\<close>.  The result is the chosen \<open>iter\<close>, the modified entry
  when \<open>fUsingModified\<close> is set, and the cursor \<open>mi\<close> after the choice.
\<close>

definition choose_candidate ::
  "assembler_options \<Rightarrow> CTxMemPool \<Rightarrow> BlockAssembler \<Rightarrow>
     (txiter \<times> CTxMemPoolModifiedEntry option \<times> txiter list) option" where
  "choose_candidate opts pool st =
     (case mi st of
        [] \<Rightarrow>
          (case best_modified (CompareModifiedEntry opts) (mapModifiedTx st) of
             None \<Rightarrow> None
           | Some modit \<Rightarrow> Some (iter modit, Some modit, []))
      | it # rest \<Rightarrow>
          (case best_modified (CompareModifiedEntry opts) (mapModifiedTx st) of
             None \<Rightarrow> Some (it, None, rest)
           | Some modit \<Rightarrow>
               if CompareModifiedEntry opts modit (ModifiedEntry pool it)
               then Some (iter modit, Some modit, it # rest)
               else Some (it, None, rest)))"

text \<open>
  "we must erase failed entries so that we can consider the next best entry on the next
  loop iteration": done when the failed candidate came from \<open>mapModifiedTx\<close>.
\<close>

definition mark_failed ::
  "txiter \<Rightarrow> CTxMemPoolModifiedEntry option \<Rightarrow> BlockAssembler \<Rightarrow> BlockAssembler" where
  "mark_failed it modit st =
     (case modit of
        None \<Rightarrow> st
      | Some m \<Rightarrow> st\<lparr>mapModifiedTx := erase_modified (iter m) (mapModifiedTx st),
                     failedTx := List.insert it (failedTx st)\<rparr>)"

text \<open>
  The package of a candidate (its ancestors that are not in the block, and itself), and
  the block after the sorted package is added and the descendants are updated.
\<close>

definition package_of :: "CTxMemPool \<Rightarrow> BlockAssembler \<Rightarrow> txiter \<Rightarrow> txiter list" where
  "package_of pool st it =
     List.insert it (onlyUnconfirmed st (CalculateMemPoolAncestors pool it))"

definition add_package :: "CTxMemPool \<Rightarrow> txiter list \<Rightarrow> BlockAssembler \<Rightarrow> BlockAssembler" where
  "add_package pool ancestors st =
     (let sortedEntries = SortForBlock pool ancestors;
          st1 = fold (\<lambda>e s. (AddToBlock pool e s)
                   \<lparr>mapModifiedTx := erase_modified e (mapModifiedTx (AddToBlock pool e s))\<rparr>)
                  sortedEntries st;
          upd = UpdatePackagesForAdded pool ancestors (mapModifiedTx st1)
      in st1\<lparr>nConsecutiveFailed := 0,
              nPackagesSelected := nPackagesSelected st1 + 1,
              nDescendantsUpdated := nDescendantsUpdated st1 + fst upd,
              mapModifiedTx := snd upd\<rparr>)"

text \<open>
  The package statistics of the candidate: those of its modified entry when
  \<open>fUsingModified\<close> is set, those of the mempool entry otherwise.
\<close>

definition packageSize :: "CTxMemPool \<Rightarrow> txiter \<Rightarrow> CTxMemPoolModifiedEntry option \<Rightarrow> int" where
  "packageSize pool it modit =
     (case modit of
        None \<Rightarrow> GetSizeWithAncestors (entry pool it)
      | Some m \<Rightarrow> nSizeWithAncestors m)"

definition packageFees :: "CTxMemPool \<Rightarrow> txiter \<Rightarrow> CTxMemPoolModifiedEntry option \<Rightarrow> int" where
  "packageFees pool it modit =
     (case modit of
        None \<Rightarrow> GetModFeesWithAncestors (entry pool it)
      | Some m \<Rightarrow> nModFeesWithAncestors m)"

definition packageSigOpsCost ::
  "CTxMemPool \<Rightarrow> txiter \<Rightarrow> CTxMemPoolModifiedEntry option \<Rightarrow> int" where
  "packageSigOpsCost pool it modit =
     (case modit of
        None \<Rightarrow> GetSigOpCostWithAncestors (entry pool it)
      | Some m \<Rightarrow> nSigOpCostWithAncestors m)"

text \<open>
  One pass through the body of the \<open>while\<close> loop of \<open>addPackageTxs\<close>.  \<open>Break\<close> is the
  end of the loop: its condition fails, the best package pays less than
  \<open>blockMinFeeRate\<close> (the \<open>return\<close>), or too many packages failed in a row near the weight
  limit.  \<open>Failure AssertionFailed\<close> is \<open>assert(!inBlock.count(iter))\<close>.  A \<open>txiter\<close> of the
  source is an entry of \<open>mapTx\<close> by construction; the model stops with
  \<open>Failure NotInMempool\<close> at an identity that is none.
\<close>

definition addPackageTxs_step ::
  "assembler_options \<Rightarrow> CTxMemPool \<Rightarrow> BlockAssembler \<Rightarrow> loop_result" where
  "addPackageTxs_step opts pool st =
     (if mi st = [] \<and> mapModifiedTx st = [] then Break st
      else if mi st \<noteq> [] \<and> SkipMapTxEntry (hd (mi st)) st then Continue (st\<lparr>mi := tl (mi st)\<rparr>)
      else
        case choose_candidate opts pool st of
          None \<Rightarrow> Break st
        | Some (it, modit, mi') \<Rightarrow>
            if it \<in> set (inBlock st) then Failure AssertionFailed
            else if it \<notin> set (mapTx pool) then Failure NotInMempool
            else if packageFees pool it modit < blockMinFee opts (packageSize pool it modit)
            then Break (st\<lparr>mi := mi'\<rparr>)
            else if \<not> TestPackage opts (st\<lparr>mi := mi'\<rparr>) (packageSize pool it modit)
                       (packageSigOpsCost pool it modit)
            then
              (if nConsecutiveFailed st + 1 > 1000 \<and>
                  nBlockWeight st > uint32 (nBlockMaxWeight opts - 4000)
               then Break ((mark_failed it modit (st\<lparr>mi := mi'\<rparr>))
                             \<lparr>nConsecutiveFailed := nConsecutiveFailed st + 1\<rparr>)
               else Continue ((mark_failed it modit (st\<lparr>mi := mi'\<rparr>))
                                \<lparr>nConsecutiveFailed := nConsecutiveFailed st + 1\<rparr>))
            else if \<not> TestPackageTransactions pool (package_of pool (st\<lparr>mi := mi'\<rparr>) it)
            then Continue (mark_failed it modit (st\<lparr>mi := mi'\<rparr>))
            else Continue (add_package pool (package_of pool (st\<lparr>mi := mi'\<rparr>) it)
                             (st\<lparr>mi := mi'\<rparr>)))"

text \<open>The measure of the loop: entries not yet in the block, then candidates left.\<close>

definition entries_left :: "CTxMemPool \<Rightarrow> BlockAssembler \<Rightarrow> nat" where
  "entries_left pool st = length (filter (\<lambda>it. it \<notin> set (inBlock st)) (remdups (mapTx pool)))"

definition candidates_left :: "BlockAssembler \<Rightarrow> nat" where
  "candidates_left st = length (mi st) + length (mapModifiedTx st)"

subsection \<open>The mempool's bookkeeping and the invariant of the loop\<close>

text \<open>
  Modelled from the spec: what the mempool keeps true of its entries (txmempool.cpp is not
  among the sources).  "On success the entry's ancestor/descendant aggregates are computed by
  walking parents already in the pool": the ancestors of an entry are entries of the pool,
  the entry is not among them, the ancestors of an ancestor are ancestors, the ancestor
  count is their number plus one for the entry itself, and \<open>CalculateDescendants\<close> gives
  entries of the pool of which the entry is an ancestor (or the entry itself) and misses
  none of them.
\<close>

definition entry_ok :: "CTxMemPool \<Rightarrow> txiter \<Rightarrow> bool" where
  "entry_ok pool x =
     (distinct (CalculateMemPoolAncestors pool x) \<and>
      distinct (CalculateDescendants pool x) \<and>
      x \<notin> set (CalculateMemPoolAncestors pool x) \<and>
      GetCountWithAncestors (entry pool x) = 1 + int (length (CalculateMemPoolAncestors pool x)) \<and>
      list_all (\<lambda>a. a \<in> set (mapTx pool) \<and>
                  x \<in> set (CalculateDescendants pool a) \<and>
                  list_all (\<lambda>b. b \<in> set (CalculateMemPoolAncestors pool x))
                    (CalculateMemPoolAncestors pool a))
        (CalculateMemPoolAncestors pool x) \<and>
      list_all (\<lambda>d. d \<in> set (mapTx pool) \<and>
                  (d = x \<or> x \<in> set (CalculateMemPoolAncestors pool d)))
        (CalculateDescendants pool x))"

definition mempool_ok :: "CTxMemPool \<Rightarrow> bool" where
  "mempool_ok pool = (distinct (mapTx pool) \<and> list_all (entry_ok pool) (mapTx pool))"

text \<open>
  A list of transactions in which every ancestor of a transaction stands before it, or
  is among \<open>seen\<close>.
\<close>

fun ancestors_first :: "CTxMemPool \<Rightarrow> txiter list \<Rightarrow> txiter list \<Rightarrow> bool" where
  "ancestors_first pool seen [] = True"
| "ancestors_first pool seen (x # xs) =
     (list_all (\<lambda>a. a \<in> set seen) (CalculateMemPoolAncestors pool x) \<and>
      ancestors_first pool (seen @ [x]) xs)"

text \<open>
  What every pass through the loop keeps: the block's transactions are entries of the
  pool, each once and after its ancestors, \<open>inBlock\<close> is the set of them, and no entry of
  \<open>mapModifiedTx\<close> is in the block.
\<close>

definition structure_inv :: "CTxMemPool \<Rightarrow> BlockAssembler \<Rightarrow> bool" where
  "structure_inv pool st =
     (distinct (vtx st) \<and> set (inBlock st) = set (vtx st) \<and>
      list_all (\<lambda>x. x \<in> set (mapTx pool)) (vtx st) \<and>
      ancestors_first pool [] (vtx st) \<and>
      list_all (\<lambda>e. iter e \<in> set (mapTx pool) \<and> iter e \<notin> set (inBlock st)) (mapModifiedTx st) \<and>
      list_all (\<lambda>x. x \<in> set (mapTx pool)) (mi st))"

definition result_ok :: "(BlockAssembler \<Rightarrow> bool) \<Rightarrow> loop_result \<Rightarrow> bool" where
  "result_ok P r = (case r of Continue s \<Rightarrow> P s | Break s \<Rightarrow> P s | Failure e \<Rightarrow> False)"

subsection \<open>The budget of the block\<close>

text \<open>
  Modelled from the spec: the aggregates of a mempool entry (txmempool.cpp is not among
  the sources).  "(count, total size, total modified fee, total sigop cost)": the size and
  the sigop cost with ancestors are the sums over the entry and its ancestors.  Sizes,
  weights and sigop costs are not negative, the weight of a transaction is at most
  \<open>WITNESS_SCALE_FACTOR\<close> times its (virtual) size, and the size of a package stays below
  \<open>2^61\<close> bytes and its sigop cost within \<open>int64_t\<close>.
\<close>

definition aggregates_ok :: "CTxMemPool \<Rightarrow> txiter \<Rightarrow> bool" where
  "aggregates_ok pool x =
     (0 \<le> GetTxSize (entry pool x) \<and>
      0 \<le> GetTxWeight (entry pool x) \<and>
      0 \<le> GetSigOpCost (entry pool x) \<and>
      GetTxWeight (entry pool x) \<le> WITNESS_SCALE_FACTOR * GetTxSize (entry pool x) \<and>
      GetSizeWithAncestors (entry pool x) =
        GetTxSize (entry pool x) +
        sum_list (map (\<lambda>a. GetTxSize (entry pool a)) (CalculateMemPoolAncestors pool x)) \<and>
      GetSigOpCostWithAncestors (entry pool x) =
        GetSigOpCost (entry pool x) +
        sum_list (map (\<lambda>a. GetSigOpCost (entry pool a)) (CalculateMemPoolAncestors pool x)) \<and>
      GetSizeWithAncestors (entry pool x) < 2 ^ 61 \<and>
      GetSigOpCostWithAncestors (entry pool x) < 2 ^ 63)"

definition mempool_aggregates_ok :: "CTxMemPool \<Rightarrow> bool" where
  "mempool_aggregates_ok pool = list_all (aggregates_ok pool) (mapTx pool)"

text \<open>
  The part of an aggregate \<open>g\<close> of \<open>x\<close> that is not in the block \<open>S\<close> yet: that of \<open>x\<close> and
  of its ancestors outside \<open>S\<close>.
\<close>

definition pending :: "(txiter \<Rightarrow> int) \<Rightarrow> CTxMemPool \<Rightarrow> txiter set \<Rightarrow> txiter \<Rightarrow> int" where
  "pending g pool S x =
     g x + sum_list (map g (filter (\<lambda>a. a \<notin> S) (CalculateMemPoolAncestors pool x)))"

definition size_of :: "CTxMemPool \<Rightarrow> txiter \<Rightarrow> int" where
  "size_of pool x = GetTxSize (entry pool x)"

definition sigops_of :: "CTxMemPool \<Rightarrow> txiter \<Rightarrow> int" where
  "sigops_of pool x = GetSigOpCost (entry pool x)"

text \<open>
  A modified entry never promises less than what is pending, and never more than the
  mempool's aggregate.
\<close>

definition modified_ok :: "CTxMemPool \<Rightarrow> txiter set \<Rightarrow> CTxMemPoolModifiedEntry \<Rightarrow> bool" where
  "modified_ok pool S e =
     (pending (size_of pool) pool S (iter e) \<le> nSizeWithAncestors e \<and>
      nSizeWithAncestors e \<le> GetSizeWithAncestors (entry pool (iter e)) \<and>
      pending (sigops_of pool) pool S (iter e) \<le> nSigOpCostWithAncestors e \<and>
      nSigOpCostWithAncestors e \<le> GetSigOpCostWithAncestors (entry pool (iter e)))"

text \<open>
  What every pass through the loop keeps of the budget: the weight and the sigop cost of the
  block are the reserved amounts plus the sums over its transactions and within the
  limits, the modified entries are as above, and an entry of the pool with an ancestor in
  the block is in the block, in \<open>mapModifiedTx\<close> or in \<open>failedTx\<close>.
\<close>

definition budget_inv :: "assembler_options \<Rightarrow> CTxMemPool \<Rightarrow> BlockAssembler \<Rightarrow> bool" where
  "budget_inv opts pool st =
     (nBlockWeight st = 4000 + sum_list (map (\<lambda>x. GetTxWeight (entry pool x)) (vtx st)) \<and>
      nBlockSigOpsCost st = 400 + sum_list (map (\<lambda>x. GetSigOpCost (entry pool x)) (vtx st)) \<and>
      nBlockWeight st \<le> nBlockMaxWeight opts \<and>
      nBlockSigOpsCost st \<le> MAX_BLOCK_SIGOPS_COST opts \<and>
      list_all (modified_ok pool (set (inBlock st))) (mapModifiedTx st) \<and>
      list_all (\<lambda>x. x \<in> set (inBlock st) \<or> x \<in> iter ` set (mapModifiedTx st) \<or>
                  x \<in> set (failedTx st) \<or>
                  list_all (\<lambda>a. a \<notin> set (inBlock st)) (CalculateMemPoolAncestors pool x))
        (mapTx pool))"

text \<open>
  The entries of \<open>mapModifiedTx\<close> while \<open>UpdatePackagesForAdded\<close> walks the descendants of
  the added \<open>p\<close>: those of descendants in \<open>D\<close>, which the walk has passed, count \<open>p\<close> as
  in the block; the others do not yet.
\<close>

definition walk_inv ::
  "CTxMemPool \<Rightarrow> txiter set \<Rightarrow> txiter \<Rightarrow> txiter set \<Rightarrow> CTxMemPoolModifiedEntry list \<Rightarrow> bool" where
  "walk_inv pool S p D ms =
     list_all (\<lambda>e. iter e \<in> set (mapTx pool) \<and>
                  modified_ok pool (if iter e \<in> D then insert p S else S) e) ms"

text \<open>After the walk over all descendants of \<open>p\<close>, every entry counts \<open>p\<close> as in the block.\<close>

definition all_modified_ok :: "CTxMemPool \<Rightarrow> txiter set \<Rightarrow> CTxMemPoolModifiedEntry list \<Rightarrow> bool" where
  "all_modified_ok pool S ms =
     list_all (\<lambda>e. iter e \<in> set (mapTx pool) \<and> modified_ok pool S e) ms"

text \<open>
  The limits of one template build: \<open>nBlockMaxWeight\<close> is an \<open>unsigned int\<close> that the
  constructor keeps at 4000 or above, and \<open>MAX_BLOCK_SIGOPS_COST\<close> is an \<open>int64_t\<close> that
  leaves room for the 400 reserved for the coinbase.
\<close>

definition options_ok :: "assembler_options \<Rightarrow> bool" where
  "options_ok opts =
     (4000 \<le> nBlockMaxWeight opts \<and> nBlockMaxWeight opts < 2 ^ 32 \<and>
      400 \<le> MAX_BLOCK_SIGOPS_COST opts \<and> MAX_BLOCK_SIGOPS_COST opts < 2 ^ 63)"

subsection \<open>A mempool of four transactions\<close>

text \<open>
  Transactions 2 and 4 spend outputs of 1, and 3 stands alone; \<open>mapTx\<close> is in the order of
  the ancestor fee rates 20, 5, 4.4 and 2.  The comparison is that of the fee rates by
  cross-multiplication, the smaller identity first among equals.  \<open>idle_assembler\<close> is an
  assembler that has built nothing yet, and \<open>tight_options\<close> leaves room for 2000 units of
  weight.
\<close>

definition example_entry :: "txiter \<Rightarrow> CTxMemPoolEntry" where
  "example_entry x =
     (if x = 1 then
        \<lparr>GetTxSize = 200, GetTxWeight = 800, GetFee = 1000, GetModifiedFee = 1000,
         GetSigOpCost = 4, GetCountWithAncestors = 1, GetSizeWithAncestors = 200,
         GetModFeesWithAncestors = 1000, GetSigOpCostWithAncestors = 4, IsFinalTx = True\<rparr>
      else if x = 2 then
        \<lparr>GetTxSize = 100, GetTxWeight = 400, GetFee = 5000, GetModifiedFee = 5000,
         GetSigOpCost = 8, GetCountWithAncestors = 2, GetSizeWithAncestors = 300,
         GetModFeesWithAncestors = 6000, GetSigOpCostWithAncestors = 12, IsFinalTx = True\<rparr>
      else if x = 3 then
        \<lparr>GetTxSize = 150, GetTxWeight = 597, GetFee = 300, GetModifiedFee = 300,
         GetSigOpCost = 4, GetCountWithAncestors = 1, GetSizeWithAncestors = 150,
         GetModFeesWithAncestors = 300, GetSigOpCostWithAncestors = 4, IsFinalTx = True\<rparr>
      else
        \<lparr>GetTxSize = 250, GetTxWeight = 1000, GetFee = 1000, GetModifiedFee = 1000,
         GetSigOpCost = 4, GetCountWithAncestors = 2, GetSizeWithAncestors = 450,
         GetModFeesWithAncestors = 2000, GetSigOpCostWithAncestors = 8, IsFinalTx = True\<rparr>)"

definition example_pool :: CTxMemPool where
  "example_pool =
     \<lparr>mapTx = [2, 1, 4, 3],
      entry = example_entry,
      CalculateMemPoolAncestors = (\<lambda>x. if x = 2 \<or> x = 4 then [1] else []),
      CalculateDescendants = (\<lambda>x. if x = 1 then [1, 2, 4] else [x])\<rparr>"

definition idle_assembler :: BlockAssembler where
  "idle_assembler =
     \<lparr>vtx = [], vTxFees = [], vTxSigOpsCost = [], inBlock = [], nBlockWeight = 0,
      nBlockSigOpsCost = 0, nBlockTx = 0, nFees = 0, mi = [], mapModifiedTx = [], failedTx = [],
      nConsecutiveFailed = 0, nPackagesSelected = 0, nDescendantsUpdated = 0\<rparr>"

definition example_options :: assembler_options where
  "example_options =
     \<lparr>nBlockMaxWeight = 3996000, MAX_BLOCK_SIGOPS_COST = 80000,
      blockMinFee = (\<lambda>nBytes. nBytes),
      CompareModifiedEntry = (\<lambda>a b.
        if nModFeesWithAncestors a * nSizeWithAncestors b
             = nModFeesWithAncestors b * nSizeWithAncestors a
        then iter a < iter b
        else nModFeesWithAncestors a * nSizeWithAncestors b
               > nModFeesWithAncestors b * nSizeWithAncestors a)\<rparr>"

definition tight_options :: assembler_options where
  "tight_options = example_options\<lparr>nBlockMaxWeight := 6000\<rparr>"

section \<open>Theorems: governance store\<close>

lemma blocked_scripts_eq: "blocked_scripts db = {s. db_freeze db s = Some True}"
  by (auto simp: blocked_scripts_def CanSend_def split: option.splits)

lemma of_nat_card_remove:
  "finite A \<Longrightarrow> s \<in> A \<Longrightarrow> (of_nat (card (A - {s})) :: 32 word) = of_nat (card A) - 1"
  by (metis add_diff_cancel_right' card.remove of_nat_Suc add.commute)

lemma counter_inv_set_True:
  assumes "counter_inv db" and "db_freeze db s \<noteq> Some True"
  shows "counter_inv (db\<lparr>db_freeze := (db_freeze db)(s \<mapsto> True),
                          db_number_frozen := db_number_frozen db + 1\<rparr>)"
proof -
  let ?db' = "db\<lparr>db_freeze := (db_freeze db)(s \<mapsto> True), db_number_frozen := db_number_frozen db + 1\<rparr>"
  have eq: "blocked_scripts ?db' = insert s (blocked_scripts db)"
    by (auto simp: blocked_scripts_eq)
  have notin: "s \<notin> blocked_scripts db"
    using assms(2) by (simp add: blocked_scripts_eq)
  from assms(1) have fin: "finite (blocked_scripts db)"
    and cnt: "(of_nat (card (blocked_scripts db)) :: 32 word) = db_number_frozen db + 1"
    by (simp_all add: counter_inv_def)
  show ?thesis
    unfolding counter_inv_def eq using fin notin cnt by simp
qed

lemma counter_inv_set_False:
  assumes "counter_inv db" and "db_freeze db s = Some True"
  shows "counter_inv (db\<lparr>db_freeze := (db_freeze db)(s \<mapsto> False),
                          db_number_frozen := db_number_frozen db - 1\<rparr>)"
proof -
  let ?db' = "db\<lparr>db_freeze := (db_freeze db)(s \<mapsto> False), db_number_frozen := db_number_frozen db - 1\<rparr>"
  have eq: "blocked_scripts ?db' = blocked_scripts db - {s}"
    by (auto simp: blocked_scripts_eq)
  have isin: "s \<in> blocked_scripts db"
    using assms(2) by (simp add: blocked_scripts_eq)
  from assms(1) have fin: "finite (blocked_scripts db)"
    and cnt: "(of_nat (card (blocked_scripts db)) :: 32 word) = db_number_frozen db + 1"
    by (simp_all add: counter_inv_def)
  show ?thesis
    unfolding counter_inv_def eq using fin cnt of_nat_card_remove [OF fin isin] by simp
qed

lemma counter_inv_set_same:
  assumes "counter_inv db" and "(db_freeze db s = Some True) = (b = True)"
  shows "counter_inv (db\<lparr>db_freeze := (db_freeze db)(s \<mapsto> b)\<rparr>)"
proof -
  have "blocked_scripts (db\<lparr>db_freeze := (db_freeze db)(s \<mapsto> b)\<rparr>) = blocked_scripts db"
    using assms(2) by (auto simp: blocked_scripts_eq)
  then show ?thesis using assms(1) by (simp add: counter_inv_def)
qed



lemma record_swap:
  "db\<lparr>db_number_frozen := n, db_freeze := f\<rparr> = db\<lparr>db_freeze := f, db_number_frozen := n\<rparr>"
  by simp

lemma counter_inv_set_True_swapped:
  assumes "counter_inv db" and "db_freeze db s \<noteq> Some True"
  shows "counter_inv (db\<lparr>db_number_frozen := db_number_frozen db + 1,
                          db_freeze := (db_freeze db)(s \<mapsto> True)\<rparr>)"
  by (subst record_swap) (rule counter_inv_set_True [OF assms])

lemma counter_inv_set_False_swapped:
  assumes "counter_inv db" and "db_freeze db s = Some True"
  shows "counter_inv (db\<lparr>db_number_frozen := db_number_frozen db - 1,
                          db_freeze := (db_freeze db)(s \<mapsto> False)\<rparr>)"
  by (subst record_swap) (rule counter_inv_set_False [OF assms])

lemma counter_inv_Init: "counter_inv (snd (Init fWipe p g None))"
  by (simp add: counter_inv_def blocked_scripts_eq init_batch_def)

lemma counter_inv_Freeze: "counter_inv db \<Longrightarrow> counter_inv (snd (FreezeScript s db))"
proof (cases "db_freeze db s")
  case None
  assume "counter_inv db"
  then show ?thesis using None counter_inv_set_True [of db s]
    by (simp add: FreezeScript_def)
next
  case (Some b)
  assume inv: "counter_inv db"
  show ?thesis
  proof (cases b)
    case True
    then show ?thesis using inv Some counter_inv_set_same [of db s True]
      by (simp add: FreezeScript_def)
  next
    case False
    then show ?thesis using inv Some counter_inv_set_True [of db s]
      by (simp add: FreezeScript_def)
  qed
qed

lemma counter_inv_Unfreeze: "counter_inv db \<Longrightarrow> counter_inv (snd (UnfreezeScript s db))"
proof (cases "db_freeze db s")
  case None
  assume "counter_inv db"
  then show ?thesis using None counter_inv_set_same [of db s False]
    by (simp add: UnfreezeScript_def)
next
  case (Some b)
  assume inv: "counter_inv db"
  show ?thesis
  proof (cases b)
    case True
    then show ?thesis using inv Some counter_inv_set_False [of db s]
      by (simp add: UnfreezeScript_def)
  next
    case False
    then show ?thesis using inv Some counter_inv_set_same [of db s False]
      by (simp add: UnfreezeScript_def)
  qed
qed

lemma counter_inv_RevertFreeze:
  "counter_inv db \<Longrightarrow> counter_inv (snd (RevertFreezeScript s db))"
proof (cases "db_freeze db s")
  case None
  assume "counter_inv db"
  then show ?thesis using None by (simp add: RevertFreezeScript_def)
next
  case (Some b)
  assume inv: "counter_inv db"
  show ?thesis
  proof (cases b)
    case True
    then show ?thesis using inv Some counter_inv_set_False_swapped [of db s]
      by (simp add: RevertFreezeScript_def)
  next
    case False
    then show ?thesis using inv Some by (simp add: RevertFreezeScript_def)
  qed
qed

lemma counter_inv_RevertUnfreeze:
  "counter_inv db \<Longrightarrow> counter_inv (snd (RevertUnfreezeScript s db))"
proof (cases "db_freeze db s")
  case None
  assume "counter_inv db"
  then show ?thesis using None by (simp add: RevertUnfreezeScript_def)
next
  case (Some b)
  assume inv: "counter_inv db"
  show ?thesis
  proof (cases b)
    case True
    then show ?thesis using inv Some by (simp add: RevertUnfreezeScript_def)
  next
    case False
    then show ?thesis using inv Some counter_inv_set_True_swapped [of db s]
      by (simp add: RevertUnfreezeScript_def)
  qed
qed

lemma counter_inv_run_call: "counter_inv db \<Longrightarrow> counter_inv (run_call c db)"
  by (cases c)
     (simp_all add: counter_inv_Freeze counter_inv_Unfreeze counter_inv_RevertFreeze
        counter_inv_RevertUnfreeze)

lemma counter_inv_run_calls: "counter_inv db \<Longrightarrow> counter_inv (run_calls cs db)"
  by (induction cs arbitrary: db) (simp_all add: counter_inv_run_call)

text \<open>
  Claim C1, as the code has it.  In every state reached from \<open>Init\<close> on an empty database
  by calls of \<open>FreezeScript\<close>, \<open>UnfreezeScript\<close>, \<open>RevertFreezeScript\<close> and
  \<open>RevertUnfreezeScript\<close>, finitely many scripts are refused by \<open>CanSend\<close>, and their
  number is \<open>GetNumberOfFrozenScripts() + 1\<close> modulo \<open>2^32\<close>: \<open>Init\<close> stores the dummy
  script as frozen and sets the counter to 0, and every later call changes the counter and
  the set of refused scripts together.
\<close>

theorem C1_counter_counts_all_but_dummy:
  "finite (blocked_scripts (run_calls cs (snd (Init fWipe chainparams Params None)))) \<and>
   (of_nat (card (blocked_scripts (run_calls cs (snd (Init fWipe chainparams Params None))))) :: 32 word)
     = GetNumberOfFrozenScripts (run_calls cs (snd (Init fWipe chainparams Params None))) + 1"
  using counter_inv_run_calls [OF counter_inv_Init, of cs fWipe chainparams Params]
  by (simp add: counter_inv_def GetNumberOfFrozenScripts_def)

text \<open>
  Claim C1 as stated fails in the state right after \<open>Init\<close>: the counter is 0 and one script,
  \<open>DUMMY_SCRIPT\<close>, is refused by \<open>CanSend\<close>.
\<close>

lemma blocked_Init: "blocked_scripts (snd (Init fWipe p g None)) = {DUMMY_SCRIPT}"
  by (auto simp: blocked_scripts_eq init_batch_def split: if_splits)

lemma number_Init: "GetNumberOfFrozenScripts (snd (Init fWipe p g None)) = 0"
  by (simp add: GetNumberOfFrozenScripts_def init_batch_def)

theorem C1_counterexample:
  "unat (GetNumberOfFrozenScripts (run_calls [] (snd (Init True main_params main_params None))))
     \<noteq> card (blocked_scripts (run_calls [] (snd (Init True main_params main_params None))))"
  by (simp only: run_calls.simps blocked_Init number_Init) simp

lemmas cost_type_defs = GOVERNANCE_COST_ROOT_def GOVERNANCE_COST_REISSUE_def
  GOVERNANCE_COST_UNIQUE_def GOVERNANCE_COST_SUB_def GOVERNANCE_COST_USERNAME_def DUMMY_TYPE_def

lemma db_cost_Init:
  "db_cost (init_batch p g fr [] fe) =
     [((0, 0), 0), ((1, 0), RootFeeAmount p), ((2, 0), SubFeeAmount p),
      ((3, 0), UniqueFeeAmount p), ((4, 0), ReissueFeeAmount p), ((5, 0), UsernameFeeAmount p)]"
  by (simp add: init_batch_def cost_type_defs)

lemma GetCost_init_batch:
  "GetCost GOVERNANCE_COST_ROOT (init_batch p g fr [] fe) = RootFeeAmount p"
  "GetCost GOVERNANCE_COST_REISSUE (init_batch p g fr [] fe) = SubFeeAmount p"
  "GetCost GOVERNANCE_COST_UNIQUE (init_batch p g fr [] fe) = UniqueFeeAmount p"
  "GetCost GOVERNANCE_COST_SUB (init_batch p g fr [] fe) = ReissueFeeAmount p"
  "GetCost GOVERNANCE_COST_USERNAME (init_batch p g fr [] fe) = UsernameFeeAmount p"
  by (simp_all add: GetCost_def db_cost_Init cost_type_defs)

text \<open>
  Claim C2 at the main network's parameters.  After \<open>Init\<close> on an empty database
  \<open>GetCost(GOVERNANCE_COST_REISSUE)\<close> is \<open>SubFeeAmount()\<close>, 100 coins, where
  \<open>ReissueFeeAmount()\<close> is 10000 coins, and \<open>GetCost(GOVERNANCE_COST_SUB)\<close> is
  \<open>ReissueFeeAmount()\<close>: \<open>Init\<close> writes the two amounts under each other's type.
\<close>

theorem C2_reissue_cost_is_sub_fee:
  "GetCost GOVERNANCE_COST_REISSUE (snd (Init True main_params main_params None)) = 10000000000 \<and>
   ReissueFeeAmount main_params = 1000000000000 \<and>
   GetCost GOVERNANCE_COST_SUB (snd (Init True main_params main_params None)) = 1000000000000 \<and>
   SubFeeAmount main_params = 10000000000"
  by (simp only: Init.simps snd_conv GetCost_init_batch) (simp add: main_params_def COIN_def)

text \<open>
  Claim C3, with its example kept to scripts other than the dummy script.  When the entry
  of \<open>s\<close> is stored with \<open>frozen = true\<close>, \<open>RevertFreezeScript(s)\<close> returns \<open>true\<close>, sets
  the entry to \<open>false\<close> and takes one off the counter (in 32-bit arithmetic); in every
  other case it returns \<open>false\<close> and the store is the one it was given.
  \<open>RevertUnfreezeScript(s)\<close> is the dual.  For \<open>s\<close> other than \<open>DUMMY_SCRIPT\<close>, after
  \<open>Init\<close> on an empty database and \<open>FreezeScript(s)\<close>, \<open>RevertFreezeScript(s)\<close> succeeds
  and leaves the counter at 0 and \<open>CanSend(s)\<close> true, and a second
  \<open>RevertFreezeScript(s)\<close> fails.
\<close>

theorem C3_revert_semantics:
  "(db_freeze db s = Some True \<longrightarrow>
      RevertFreezeScript s db =
        (True, db\<lparr>db_number_frozen := db_number_frozen db - 1,
                  db_freeze := (db_freeze db)(s \<mapsto> False)\<rparr>)) \<and>
   (db_freeze db s \<noteq> Some True \<longrightarrow> RevertFreezeScript s db = (False, db)) \<and>
   (db_freeze db s = Some False \<longrightarrow>
      RevertUnfreezeScript s db =
        (True, db\<lparr>db_number_frozen := db_number_frozen db + 1,
                  db_freeze := (db_freeze db)(s \<mapsto> True)\<rparr>)) \<and>
   (db_freeze db s \<noteq> Some False \<longrightarrow> RevertUnfreezeScript s db = (False, db)) \<and>
   (s \<noteq> DUMMY_SCRIPT \<longrightarrow>
      fst (RevertFreezeScript s (snd (FreezeScript s (snd (Init fWipe chainparams Params None))))) \<and>
      GetNumberOfFrozenScripts
        (snd (RevertFreezeScript s (snd (FreezeScript s (snd (Init fWipe chainparams Params None)))))) = 0 \<and>
      CanSend s
        (snd (RevertFreezeScript s (snd (FreezeScript s (snd (Init fWipe chainparams Params None)))))) \<and>
      \<not> fst (RevertFreezeScript s
        (snd (RevertFreezeScript s (snd (FreezeScript s (snd (Init fWipe chainparams Params None))))))))"
proof (intro conjI impI)
  assume "db_freeze db s = Some True"
  then show "RevertFreezeScript s db =
        (True, db\<lparr>db_number_frozen := db_number_frozen db - 1,
                  db_freeze := (db_freeze db)(s \<mapsto> False)\<rparr>)"
    by (simp add: RevertFreezeScript_def)
next
  assume "db_freeze db s \<noteq> Some True"
  then show "RevertFreezeScript s db = (False, db)"
    by (cases "db_freeze db s") (simp_all add: RevertFreezeScript_def)
next
  assume "db_freeze db s = Some False"
  then show "RevertUnfreezeScript s db =
        (True, db\<lparr>db_number_frozen := db_number_frozen db + 1,
                  db_freeze := (db_freeze db)(s \<mapsto> True)\<rparr>)"
    by (simp add: RevertUnfreezeScript_def)
next
  assume "db_freeze db s \<noteq> Some False"
  then show "RevertUnfreezeScript s db = (False, db)"
    by (cases "db_freeze db s") (simp_all add: RevertUnfreezeScript_def)
next
  let ?db0 = "snd (Init fWipe chainparams Params None)"
  let ?db1 = "snd (FreezeScript s ?db0)"
  let ?db2 = "snd (RevertFreezeScript s ?db1)"
  assume ne: "s \<noteq> DUMMY_SCRIPT"
  have f0: "db_freeze ?db0 s = None" and n0: "db_number_frozen ?db0 = 0"
    using ne by (simp_all add: init_batch_def)
  have f1: "db_freeze ?db1 s = Some True" and n1: "db_number_frozen ?db1 = 1"
    using f0 n0 by (simp_all add: FreezeScript_def)
  have f2: "db_freeze ?db2 s = Some False" and n2: "db_number_frozen ?db2 = 0"
    and r2: "fst (RevertFreezeScript s ?db1)"
    using f1 n1 by (simp_all add: RevertFreezeScript_def)
  show "fst (RevertFreezeScript s ?db1)" by (rule r2)
  show "GetNumberOfFrozenScripts ?db2 = 0" using n2 by (simp add: GetNumberOfFrozenScripts_def)
  show "CanSend s ?db2" using f2 by (simp add: CanSend_def)
  show "\<not> fst (RevertFreezeScript s ?db2)" using f2 by (simp add: RevertFreezeScript_def)
qed

lemma init_batch_fields:
  "db_freeze (init_batch p g fr co fe) = fr(DUMMY_SCRIPT \<mapsto> True)"
  "db_number_frozen (init_batch p g fr co fe) = 0"
  by (simp_all add: init_batch_def)

lemma OP_1_not_dummy: "[0x51] \<noteq> DUMMY_SCRIPT"
  by (simp add: DUMMY_SCRIPT_def)

text \<open>
  The cases of C3 at the script \<open>OP_1\<close>, once frozen and once unfrozen after \<open>Init\<close>.
\<close>

theorem C3_revert_semantics_witness:
  "db_freeze (snd (FreezeScript [0x51] (snd (Init True main_params main_params None)))) [0x51] = Some True \<and>
   [0x51] \<noteq> DUMMY_SCRIPT \<and>
   fst (RevertFreezeScript [0x51] (snd (FreezeScript [0x51] (snd (Init True main_params main_params None))))) \<and>
   GetNumberOfFrozenScripts
     (snd (RevertFreezeScript [0x51] (snd (FreezeScript [0x51] (snd (Init True main_params main_params None)))))) = 0 \<and>
   db_freeze (snd (UnfreezeScript [0x51] (snd (Init True main_params main_params None)))) [0x51] = Some False \<and>
   RevertFreezeScript [0x51] (snd (UnfreezeScript [0x51] (snd (Init True main_params main_params None))))
     = (False, snd (UnfreezeScript [0x51] (snd (Init True main_params main_params None)))) \<and>
   fst (RevertUnfreezeScript [0x51] (snd (UnfreezeScript [0x51] (snd (Init True main_params main_params None))))) \<and>
   RevertUnfreezeScript [0x51] (snd (FreezeScript [0x51] (snd (Init True main_params main_params None))))
     = (False, snd (FreezeScript [0x51] (snd (Init True main_params main_params None))))"
proof -
  let ?db0 = "snd (Init True main_params main_params None)"
  let ?dbF = "snd (FreezeScript [0x51] ?db0)"
  let ?dbU = "snd (UnfreezeScript [0x51] ?db0)"
  have f0: "db_freeze ?db0 [0x51] = None"
    using OP_1_not_dummy by (simp add: init_batch_fields)
  have hF: "db_freeze ?dbF [0x51] = Some True"
    using f0 by (simp add: FreezeScript_def)
  have hU: "db_freeze ?dbU [0x51] = Some False"
    using f0 by (simp add: UnfreezeScript_def)
  have hF': "db_freeze ?dbF [0x51] \<noteq> Some False" using hF by simp
  have hU': "db_freeze ?dbU [0x51] \<noteq> Some True" using hU by simp
  note a = C3_revert_semantics [of ?dbF "[0x51]" True main_params main_params]
  note b = C3_revert_semantics [of ?dbU "[0x51]" True main_params main_params]
  from a hF' have a4: "RevertUnfreezeScript [0x51] ?dbF = (False, ?dbF)" by blast
  from a OP_1_not_dummy have a5:
    "fst (RevertFreezeScript [0x51] ?dbF) \<and>
     GetNumberOfFrozenScripts (snd (RevertFreezeScript [0x51] ?dbF)) = 0" by blast
  from b hU' have b2: "RevertFreezeScript [0x51] ?dbU = (False, ?dbU)" by blast
  from b hU have b3: "fst (RevertUnfreezeScript [0x51] ?dbU)" by simp
  show ?thesis using hF hU OP_1_not_dummy a4 a5 b2 b3 by blast
qed

text \<open>
  The example of claim C3 fails for \<open>s = DUMMY_SCRIPT\<close>: after \<open>Init\<close> the dummy entry is
  stored frozen with the counter at 0, \<open>FreezeScript\<close> leaves both as they are, and
  \<open>RevertFreezeScript\<close> succeeds and takes the counter from 0 to \<open>2^32 - 1\<close>.
\<close>

theorem C3_counterexample:
  "GetNumberOfFrozenScripts
     (snd (RevertFreezeScript DUMMY_SCRIPT
        (snd (FreezeScript DUMMY_SCRIPT (snd (Init True main_params main_params None)))))) = 4294967295 \<and>
   fst (RevertFreezeScript DUMMY_SCRIPT
        (snd (FreezeScript DUMMY_SCRIPT (snd (Init True main_params main_params None)))))"
proof -
  let ?db0 = "snd (Init True main_params main_params None)"
  let ?db1 = "snd (FreezeScript DUMMY_SCRIPT ?db0)"
  have f1: "db_freeze ?db1 DUMMY_SCRIPT = Some True" and n1: "db_number_frozen ?db1 = 0"
    by (simp_all add: FreezeScript_def init_batch_fields)
  show ?thesis using f1 n1
    by (simp add: RevertFreezeScript_def GetNumberOfFrozenScripts_def)
qed

text \<open>
  Claim C10, as the code has it.  When a cost entry for \<open>(type, height)\<close> is stored,
  \<open>UpdateCost(a, type, height)\<close> leaves the store, and so \<open>GetCost(type)\<close>, as they were;
  it returns \<open>true\<close> exactly when \<open>type\<close> is one of the five cost types, since the type is
  checked before the entry is read.  When a fee entry for \<open>height\<close> is stored,
  \<open>UpdateFeeScript(script, height)\<close> leaves the store as it was and returns \<open>true\<close>.
\<close>

theorem C10_update_existing_entry:
  "(read_entry (type, height) (db_cost db) \<noteq> None \<longrightarrow>
      snd (UpdateCost a type height db) = db \<and>
      GetCost type (snd (UpdateCost a type height db)) = GetCost type db \<and>
      fst (UpdateCost a type height db) = known_cost_type type) \<and>
   (read_entry height (db_fee db) \<noteq> None \<longrightarrow>
      UpdateFeeScript s height db = (True, db) \<and>
      GetFeeScript (snd (UpdateFeeScript s height db)) = GetFeeScript db)"
  by (simp add: UpdateCost_def UpdateFeeScript_def)

text \<open>C10 at the height-0 entries that \<open>Init\<close> writes.\<close>

lemma db_fee_Init: "db_fee (init_batch p g fr [] []) = [(0, TokenFeeScript g)]"
  by (simp add: init_batch_def)

theorem C10_update_existing_entry_witness:
  "read_entry (GOVERNANCE_COST_ROOT, 0) (db_cost (snd (Init True main_params main_params None))) \<noteq> None \<and>
   UpdateCost 7 GOVERNANCE_COST_ROOT 0 (snd (Init True main_params main_params None))
     = (True, snd (Init True main_params main_params None)) \<and>
   read_entry 0 (db_fee (snd (Init True main_params main_params None))) \<noteq> None \<and>
   UpdateFeeScript [0x51] 0 (snd (Init True main_params main_params None))
     = (True, snd (Init True main_params main_params None))"
proof -
  let ?db0 = "snd (Init True main_params main_params None)"
  have c: "read_entry (GOVERNANCE_COST_ROOT, 0) (db_cost ?db0) \<noteq> None"
    by (simp only: Init.simps snd_conv db_cost_Init) (simp add: cost_type_defs)
  have f: "read_entry 0 (db_fee ?db0) \<noteq> None"
    by (simp only: Init.simps snd_conv db_fee_Init) simp
  have k: "known_cost_type GOVERNANCE_COST_ROOT"
    by (simp add: known_cost_type_def)
  show ?thesis
    using c f k C10_update_existing_entry [of GOVERNANCE_COST_ROOT 0 ?db0 7 "[0x51]"]
    by (metis prod.collapse)
qed

text \<open>
  Claim C10 as stated fails at the dummy cost entry \<open>(DUMMY_TYPE, 0)\<close>, which \<open>Init\<close>
  stores: \<open>UpdateCost(7, 0, 0)\<close> writes nothing and returns \<open>false\<close>.
\<close>

theorem C10_counterexample:
  "read_entry (DUMMY_TYPE, 0) (db_cost (snd (Init True main_params main_params None))) = Some 0 \<and>
   UpdateCost 7 DUMMY_TYPE 0 (snd (Init True main_params main_params None))
     = (False, snd (Init True main_params main_params None))"
proof -
  have c: "read_entry (DUMMY_TYPE, 0) (db_cost (snd (Init True main_params main_params None))) = Some 0"
    by (simp only: Init.simps snd_conv db_cost_Init) (simp add: cost_type_defs)
  have k: "\<not> known_cost_type DUMMY_TYPE"
    by (simp add: known_cost_type_def cost_type_defs)
  show ?thesis using c k by (simp add: UpdateCost_def)
qed

section \<open>Theorems: proof of work and retargeting\<close>

lemma bit_length_0 [simp]: "bit_length 0 = 0"
  by (simp add: bit_length.simps)

lemma bit_length_pos: "0 < n \<Longrightarrow> bit_length n = Suc (bit_length (n div 2))"
  by (subst bit_length.simps) simp

lemma bit_length_upper: "n < 2 ^ bit_length n"
proof (induction n rule: bit_length.induct)
  case (1 n)
  show ?case
  proof (cases "n = 0")
    case True
    then show ?thesis by simp
  next
    case False
    then have "n div 2 < 2 ^ bit_length (n div 2)" using 1 by simp
    then have "n < 2 * 2 ^ bit_length (n div 2)" by linarith
    then show ?thesis using False by (simp add: bit_length_pos)
  qed
qed

lemma bit_length_lower: "0 < n \<Longrightarrow> 2 ^ (bit_length n - 1) \<le> n"
proof (induction n rule: bit_length.induct)
  case (1 n)
  show ?case
  proof (cases "n div 2 = 0")
    case True
    then have "n = 1" using 1(2) by linarith
    then show ?thesis by (simp add: bit_length_pos)
  next
    case False
    then have "2 ^ (bit_length (n div 2) - 1) \<le> n div 2" using 1 by simp
    moreover have "0 < bit_length (n div 2)" using False by (simp add: bit_length_pos)
    ultimately have "2 ^ bit_length (n div 2) \<le> 2 * (n div 2)"
      by (cases "bit_length (n div 2)") simp_all
    then have "2 ^ bit_length (n div 2) \<le> n" by linarith
    then show ?thesis using 1(2) by (simp add: bit_length_pos)
  qed
qed

lemma bit_length_eqI:
  assumes "2 ^ k \<le> n" and "n < 2 ^ Suc k"
  shows "bit_length n = Suc k"
proof -
  have pos: "0 < n" using assms(1) by (metis gr0I not_le zero_less_numeral zero_less_power)
  have "(2::nat) ^ (bit_length n - 1) < 2 ^ Suc k"
    using bit_length_lower [OF pos] assms(2) by linarith
  then have a: "bit_length n - 1 < Suc k" by (rule power_less_imp_less_exp [rotated]) simp
  have "(2::nat) ^ k < 2 ^ bit_length n"
    using bit_length_upper [of n] assms(1) by linarith
  then have b: "k < bit_length n" by (rule power_less_imp_less_exp [rotated]) simp
  from a b show ?thesis by linarith
qed

lemma bits_eqI:
  "2 ^ k \<le> unat bn \<Longrightarrow> unat bn < 2 ^ Suc k \<Longrightarrow> bits bn = Suc k"
  by (simp add: bits_def bit_length_eqI)

lemma bits_0 [simp]: "bits 0 = 0"
  by (simp add: bits_def)

lemma bits_powLimit: "bits 0x003fffffffffffffffffffffffffffffffffffffffffffffffffffffffffffff = 246"
  using bits_eqI [of 245 "0x003fffffffffffffffffffffffffffffffffffffffffffffffffffffffffffff"]
  by simp

text \<open>
  Claim C5.  \<open>CheckProofOfWork(h, nBits)\<close> returns \<open>true\<close> exactly when the decoding of
  \<open>nBits\<close> is not negative, not zero and not an overflow, the decoded target is at most
  \<open>powLimit\<close>, and \<open>h\<close> is at most the target, both as unsigned 256-bit numbers.
\<close>

theorem C5_CheckProofOfWork:
  "CheckProofOfWork hash bits' params =
     (\<not> fst (snd (SetCompact bits')) \<and> fst (SetCompact bits') \<noteq> 0 \<and>
      \<not> snd (snd (SetCompact bits')) \<and>
      unat (fst (SetCompact bits')) \<le> unat (powLimit params) \<and>
      unat hash \<le> unat (fst (SetCompact bits')))"
  by (cases "SetCompact bits'") (auto simp: CheckProofOfWork_def word_le_nat_alt word_less_nat_alt)

lemma GetLastBlockIndex_kind:
  "pprev (GetLastBlockIndex pindex fProofOfStake) = None \<or>
   IsProofOfStake (GetLastBlockIndex pindex fProofOfStake) = fProofOfStake"
  by (induction pindex fProofOfStake rule: GetLastBlockIndex.induct) auto

lemma Calculate_no_retargeting:
  "(if IsProofOfStake pindex then fPosNoRetargeting params else fPowNoRetargeting params)
   \<Longrightarrow> CalculateNextTargetRequired pindex t params = Inr (nBits pindex)"
  by (simp add: CalculateNextTargetRequired_def split: if_splits)

text \<open>
  Claim C8, as the code has it.  With the no-retargeting flag of the block kind set,
  \<open>GetNextTargetRequired\<close> returns the compact target limit of the kind for a null tip and
  for a tip with less history than \<open>enough_history\<close>, and otherwise the \<open>nBits\<close> of the
  latest block of the kind, which then is a block of that kind.
\<close>

theorem C8_no_retargeting:
  assumes "if fProofOfStake then fPosNoRetargeting params else fPowNoRetargeting params"
  shows "GetNextTargetRequired None fProofOfStake params
           = Inr (GetCompact (if fProofOfStake then posLimit params else powLimit params)) \<and>
         GetNextTargetRequired (Some tip) fProofOfStake params
           = Inr (if enough_history tip fProofOfStake
                  then nBits (GetLastBlockIndex tip fProofOfStake)
                  else GetCompact (if fProofOfStake then posLimit params else powLimit params)) \<and>
         (if enough_history tip fProofOfStake
          then IsProofOfStake (GetLastBlockIndex tip fProofOfStake) = fProofOfStake
          else True)"
proof (intro conjI)
  show "GetNextTargetRequired None fProofOfStake params
          = Inr (GetCompact (if fProofOfStake then posLimit params else powLimit params))"
    by (simp add: GetNextTargetRequired_def)
next
  have kind: "enough_history tip fProofOfStake \<Longrightarrow>
      IsProofOfStake (GetLastBlockIndex tip fProofOfStake) = fProofOfStake"
    using GetLastBlockIndex_kind [of tip fProofOfStake]
    by (auto simp: enough_history_def split: option.splits)
  then show "if enough_history tip fProofOfStake
      then IsProofOfStake (GetLastBlockIndex tip fProofOfStake) = fProofOfStake else True"
    by simp
  show "GetNextTargetRequired (Some tip) fProofOfStake params
           = Inr (if enough_history tip fProofOfStake
                  then nBits (GetLastBlockIndex tip fProofOfStake)
                  else GetCompact (if fProofOfStake then posLimit params else powLimit params))"
  proof (cases "enough_history tip fProofOfStake")
    case False
    then show ?thesis
      by (auto simp: GetNextTargetRequired_def enough_history_def Let_def split: option.splits)
  next
    case True
    then have "if IsProofOfStake (GetLastBlockIndex tip fProofOfStake)
               then fPosNoRetargeting params else fPowNoRetargeting params"
      using kind assms by auto
    then have "CalculateNextTargetRequired (GetLastBlockIndex tip fProofOfStake) t params
                 = Inr (nBits (GetLastBlockIndex tip fProofOfStake))" for t
      by (rule Calculate_no_retargeting)
    then show ?thesis using True
      by (auto simp: GetNextTargetRequired_def enough_history_def Let_def split: option.splits)
  qed
qed

lemma bits_posLimit: "bits 0x000000000000ffffffffffffffffffffffffffffffffffffffffffffffffffff = 208"
  using bits_eqI [of 207 "0x000000000000ffffffffffffffffffffffffffffffffffffffffffffffffffff"]
  by simp

lemma GetCompact_posLimit:
  "GetCompact 0x000000000000ffffffffffffffffffffffffffffffffffffffffffffffffffff = 0x1b00ffff"
  by (simp add: GetCompact_def bits_posLimit)

lemma GetCompact_powLimit:
  "GetCompact 0x003fffffffffffffffffffffffffffffffffffffffffffffffffffffffffffff = 0x1f3fffff"
  by (simp add: GetCompact_def bits_powLimit)

text \<open>
  Claim C8 as stated fails on the test network at the tip that is the genesis block, for
  the proof-of-stake target: the flag is set, the tip's \<open>nBits\<close> is \<open>0x1f3fffff\<close>, and the
  result is the compact proof-of-stake limit \<open>0x1b00ffff\<close>.
\<close>

theorem C8_counterexample:
  "fPosNoRetargeting test_params \<and>
   GetNextTargetRequired (Some test_genesis) True test_params = Inr 0x1b00ffff \<and>
   nBits test_genesis = 0x1f3fffff \<and>
   nBits (GetLastBlockIndex test_genesis True) = 0x1f3fffff"
  by (simp add: GetNextTargetRequired_def test_genesis_def test_params_def GetCompact_posLimit)

lemma c_div_nonneg: "0 \<le> a \<Longrightarrow> 0 < b \<Longrightarrow> c_div a b = a div b"
  by (cases "a = 0") (simp_all add: c_div_def)

lemma uint_factor:
  assumes "0 \<le> m" and "m < 2 ^ 32"
  shows "uint (ucast (word_of_int m :: 32 word) :: uint256) = m"
proof -
  have "uint (word_of_int m :: 32 word) = m"
    using assms by (simp add: uint_word_of_int take_bit_int_eq_self)
  then show ?thesis by (simp add: uint_up_ucast is_up)
qed

lemma uint_divisor:
  assumes "0 \<le> d" and "d < 2 ^ 64"
  shows "uint (ucast (word_of_int d :: 64 word) :: uint256) = d"
proof -
  have "uint (word_of_int d :: 64 word) = d"
    using assms by (simp add: uint_word_of_int take_bit_int_eq_self)
  then show ?thesis by (simp add: uint_up_ucast is_up)
qed

lemma uint_mult_no_overflow:
  fixes a b :: uint256
  assumes "uint a * uint b < 2 ^ 256"
  shows "uint (a * b) = uint a * uint b"
  using assms by (simp add: uint_word_ariths take_bit_int_eq_self)

text \<open>
  Claim C4, as the code has it.  When retargeting is not disabled for the kind of the
  latest block, the spacing and timespan parameters are positive and below \<open>2^26\<close> and
  \<open>2^31\<close> with at least one spacing per timespan, and the product of the previous target
  and the multiplier is below \<open>2^256\<close>, \<open>CalculateNextTargetRequired\<close> returns the
  compact encoding that the spec's rule gives.
\<close>

theorem C4_retarget_formula:
  assumes retarget:
      "\<not> (if IsProofOfStake prev then fPosNoRetargeting params else fPowNoRetargeting params)"
    and ts: "0 < nTargetSpacing params" "nTargetSpacing params < 2 ^ 26"
    and tspan: "nTargetSpacing params \<le> nTargetTimespan params" "nTargetTimespan params < 2 ^ 31"
    and t0: "0 \<le> prevPrevTime" "prevPrevTime < 2 ^ 32"
    and fits: "uint (fst (SetCompact (nBits prev))) *
       ((nTargetTimespan params div nTargetSpacing params - 1) * nTargetSpacing params
        + 2 * spec_actual_spacing (nTargetSpacing params) (uint (nTime prev) - prevPrevTime))
       < 2 ^ 256"
  shows "CalculateNextTargetRequired prev prevPrevTime params
           = Inr (spec_next_bits prev prevPrevTime params)"
proof -
  define sp where "sp = nTargetSpacing params"
  define iv where "iv = nTargetTimespan params div sp"
  define a0 where "a0 = GetBlockTime prev - prevPrevTime"
  define a where "a = spec_actual_spacing sp a0"
  define m where "m = (iv - 1) * sp + a + a"
  define d where "d = (iv + 1) * sp"
  define P where "P = fst (SetCompact (nBits prev))"
  define L where "L = (if IsProofOfStake prev then posLimit params else powLimit params)"
  define B :: uint256 where
    "B = P * ucast (word_of_int m :: 32 word) div ucast (word_of_int d :: 64 word)"
  have sp_pos: "0 < sp" and sp_lt: "sp < 2 ^ 26" using ts by (simp_all add: sp_def)
  have clamp: "(if (if a0 < 0 then sp else a0) > sp * 10 then sp * 10
                else (if a0 < 0 then sp else a0)) = a"
    using sp_pos by (simp add: a_def spec_actual_spacing_def)
  have a_bounds: "0 \<le> a" "a \<le> 10 * sp"
    using sp_pos by (simp_all add: a_def spec_actual_spacing_def)
  have iv_ge: "1 \<le> iv"
    using tspan(1) sp_pos unfolding iv_def sp_def
    by (metis div_by_1 div_self int_one_le_iff_zero_less less_le_not_le zdiv_mono1 zero_less_one)
  have "iv * sp \<le> nTargetTimespan params"
    using sp_pos unfolding iv_def by (metis div_mult_mod_eq le_add_same_cancel1 pos_mod_sign)
  then have ivsp: "iv * sp < 2 ^ 31" using tspan(2) by linarith
  have ivm: "(iv - 1) * sp = iv * sp - sp" by (simp add: algebra_simps)
  have ivp: "(iv + 1) * sp = iv * sp + sp" by (simp add: algebra_simps)
  have "0 \<le> (iv - 1) * sp" using iv_ge sp_pos by simp
  then have m_ge: "0 \<le> m" using a_bounds by (simp add: m_def)
  have m_lt: "m < 2 ^ 32"
    using ivsp sp_pos sp_lt a_bounds unfolding m_def ivm by simp
  have "0 < iv * sp" using iv_ge sp_pos by simp
  then have d_pos: "0 < d" and d_lt: "d < 2 ^ 64"
    using ivsp sp_pos sp_lt unfolding d_def ivp by simp_all
  have um: "uint (ucast (word_of_int m :: 32 word) :: uint256) = m"
    using m_ge m_lt by (rule uint_factor)
  have ud: "uint (ucast (word_of_int d :: 64 word) :: uint256) = d"
    using d_pos d_lt by (intro uint_divisor) simp_all
  have d_ne: "(word_of_int d :: 64 word) \<noteq> 0"
  proof
    assume "(word_of_int d :: 64 word) = 0"
    then have "uint (ucast (word_of_int d :: 64 word) :: uint256) = 0" by simp
    then show False using ud d_pos by simp
  qed
  have c_iv: "c_div (nTargetTimespan params) sp = iv"
    using sp_pos tspan(1) ts(1) unfolding iv_def sp_def by (intro c_div_nonneg) simp_all
  have flags: "\<not> (\<not> IsProofOfStake prev \<and> fPowNoRetargeting params)"
      "\<not> (IsProofOfStake prev \<and> fPosNoRetargeting params)"
    using retarget by (auto split: if_splits)
  have step1: "CalculateNextTargetRequired prev prevPrevTime params
      = Inr (GetCompact (if B \<le> 0 \<or> B > L then L else B))"
    unfolding CalculateNextTargetRequired_def Let_def GetTargetLimit_def
      sp_def [symmetric] a0_def [symmetric] clamp c_iv m_def [symmetric]
      d_def [symmetric] P_def [symmetric] L_def [symmetric] B_def [symmetric]
    using flags sp_pos d_ne by auto
  have fits': "uint P * m < 2 ^ 256"
  proof -
    have "m = (nTargetTimespan params div nTargetSpacing params - 1) * nTargetSpacing params
        + 2 * spec_actual_spacing (nTargetSpacing params) (uint (nTime prev) - prevPrevTime)"
      by (simp add: m_def a_def a0_def iv_def sp_def GetBlockTime_def)
    then show ?thesis using fits by (simp only: P_def)
  qed
  have up: "uint (P * ucast (word_of_int m :: 32 word)) = uint P * m"
    using uint_mult_no_overflow [of P "ucast (word_of_int m :: 32 word)"] fits' um by simp
  have uB: "uint B = uint P * m div d"
    by (simp add: B_def uint_div up ud)
  have spec: "spec_new_target (uint P) iv sp a = uint B"
  proof -
    have "(iv - 1) * sp + 2 * a = m" by (simp add: m_def)
    then show ?thesis by (simp only: spec_new_target_def uB d_def)
  qed
  have sat: "(if B \<le> 0 \<or> B > L then L else B)
      = word_of_int (spec_saturate (uint L) (uint B))"
    by (simp add: spec_saturate_def word_le_def word_less_def not_le not_less)
  have "spec_next_bits prev prevPrevTime params
      = GetCompact (word_of_int (spec_saturate (uint L) (spec_new_target (uint P) iv sp a)))"
    by (simp add: spec_next_bits_def Let_def sp_def iv_def a_def a0_def P_def L_def
          GetBlockTime_def)
  then show ?thesis using step1 sat spec by simp
qed

lemma bits_ex1: "bits 0x11fffee00000000000000000000000000000000000000000000000000000 = 237"
  using bits_eqI [of 236 "0x11fffee00000000000000000000000000000000000000000000000000000"]
  by simp

lemma bits_ex2: "bits 0x21fffde00000000000000000000000000000000000000000000000000000 = 238"
  using bits_eqI [of 237 "0x21fffde00000000000000000000000000000000000000000000000000000"]
  by simp

lemma bits_ex3: "bits 0x7fffee0000000000000000000000000000000000000000000000000000000 = 243"
  using bits_eqI [of 242 "0x7fffee0000000000000000000000000000000000000000000000000000000"]
  by simp

lemma GetCompact_ex1:
  "GetCompact 0x11fffee00000000000000000000000000000000000000000000000000000 = 0x1e11fffe"
  by (simp add: GetCompact_def bits_ex1)

lemma GetCompact_ex2:
  "GetCompact 0x21fffde00000000000000000000000000000000000000000000000000000 = 0x1e21fffd"
  by (simp add: GetCompact_def bits_ex2)

lemma GetCompact_ex3:
  "GetCompact 0x7fffee0000000000000000000000000000000000000000000000000000000 = 0x1f07fffe"
  by (simp add: GetCompact_def bits_ex3)

lemma SetCompact_1e0fffff:
  "fst (SetCompact 0x1e0fffff) = 0x0fffff000000000000000000000000000000000000000000000000000000"
  by (simp add: SetCompact_def)

lemma SetCompact_1f3fffff:
  "fst (SetCompact 0x1f3fffff) = 0x3fffff00000000000000000000000000000000000000000000000000000000"
  by (simp add: SetCompact_def)

lemma spec_ex1: "spec_next_bits (pow_block 1000128 0x1e0fffff) 1000000 main_consensus = 0x1e11fffe"
proof -
  have "spec_next_bits (pow_block 1000128 0x1e0fffff) 1000000 main_consensus
      = GetCompact 0x11fffee00000000000000000000000000000000000000000000000000000"
    by (simp add: spec_next_bits_def pow_block_def main_consensus_def SetCompact_1e0fffff
        spec_actual_spacing_def spec_new_target_def spec_saturate_def)
  then show ?thesis by (simp only: GetCompact_ex1)
qed

lemma spec_ex2: "spec_next_bits (pow_block 1000640 0x1e0fffff) 1000000 test_params = 0x1e21fffd"
proof -
  have "spec_next_bits (pow_block 1000640 0x1e0fffff) 1000000 test_params
      = GetCompact 0x21fffde00000000000000000000000000000000000000000000000000000"
    by (simp add: spec_next_bits_def pow_block_def test_params_def SetCompact_1e0fffff
        spec_actual_spacing_def spec_new_target_def spec_saturate_def)
  then show ?thesis by (simp only: GetCompact_ex2)
qed

lemma spec_ex3: "spec_next_bits (pow_block 1000128 0x1f3fffff) 1000000 main_consensus = 0x1f3fffff"
proof -
  have "spec_next_bits (pow_block 1000128 0x1f3fffff) 1000000 main_consensus
      = GetCompact 0x003fffffffffffffffffffffffffffffffffffffffffffffffffffffffffffff"
    by (simp add: spec_next_bits_def pow_block_def main_consensus_def SetCompact_1f3fffff
        spec_actual_spacing_def spec_new_target_def spec_saturate_def)
  then show ?thesis by (simp only: GetCompact_powLimit)
qed

lemma code_ex3:
  "CalculateNextTargetRequired (pow_block 1000128 0x1f3fffff) 1000000 main_consensus
     = Inr 0x1f07fffe"
proof -
  have "CalculateNextTargetRequired (pow_block 1000128 0x1f3fffff) 1000000 main_consensus
      = Inr (GetCompact 0x7fffee0000000000000000000000000000000000000000000000000000000)"
    by (simp add: CalculateNextTargetRequired_def pow_block_def main_consensus_def
        SetCompact_1f3fffff GetBlockTime_def c_div_def GetTargetLimit_def)
  then show ?thesis by (simp only: GetCompact_ex3)
qed

lemma code_ex2:
  "CalculateNextTargetRequired (pow_block 1000640 0x1e0fffff) 1000000 test_params
     = Inr 0x1e0fffff"
  by (simp add: CalculateNextTargetRequired_def pow_block_def test_params_def)

text \<open>C4 on the main network, two minutes after a block of target \<open>0x1e0fffff\<close>.\<close>

theorem C4_retarget_formula_witness:
  "\<not> fPowNoRetargeting main_consensus \<and>
   \<not> IsProofOfStake (pow_block 1000128 0x1e0fffff) \<and>
   CalculateNextTargetRequired (pow_block 1000128 0x1e0fffff) 1000000 main_consensus
     = Inr 0x1e11fffe"
proof -
  let ?b = "pow_block 1000128 0x1e0fffff"
  have f: "\<not> fPowNoRetargeting main_consensus" "\<not> IsProofOfStake ?b"
    by (simp_all add: main_consensus_def pow_block_def)
  have h1: "\<not> (if IsProofOfStake ?b then fPosNoRetargeting main_consensus
                 else fPowNoRetargeting main_consensus)"
    using f by simp
  have h2: "0 < nTargetSpacing main_consensus" "nTargetSpacing main_consensus < 2 ^ 26"
    by (simp_all add: main_consensus_def)
  have h3: "nTargetSpacing main_consensus \<le> nTargetTimespan main_consensus"
      "nTargetTimespan main_consensus < 2 ^ 31"
    by (simp_all add: main_consensus_def)
  have h4: "(0::int) \<le> 1000000" "(1000000::int) < 2 ^ 32"
    by simp_all
  have h5: "uint (fst (SetCompact (nBits ?b))) *
       ((nTargetTimespan main_consensus div nTargetSpacing main_consensus - 1)
          * nTargetSpacing main_consensus
        + 2 * spec_actual_spacing (nTargetSpacing main_consensus) (uint (nTime ?b) - 1000000))
       < 2 ^ 256"
    by (simp add: pow_block_def main_consensus_def SetCompact_1e0fffff spec_actual_spacing_def)
  have "CalculateNextTargetRequired ?b 1000000 main_consensus
      = Inr (spec_next_bits ?b 1000000 main_consensus)"
    using h1 h2 h3 h4 h5 by (rule C4_retarget_formula)
  then show ?thesis using f by (simp only: spec_ex1) simp
qed

text \<open>
  Claim C4 as stated fails in two ways.  On the test network the no-retargeting flag is
  set and the result is the \<open>nBits\<close> of the latest block, where the rule gives another
  target.  On the main network, at the target limit \<open>0x1f3fffff\<close> and a spacing of 128
  seconds, the product does not fit 256 bits: the result is \<open>0x1f07fffe\<close> where the rule
  gives the limit \<open>0x1f3fffff\<close>.
\<close>

theorem C4_counterexample:
  "fPowNoRetargeting test_params \<and>
   CalculateNextTargetRequired (pow_block 1000640 0x1e0fffff) 1000000 test_params
     = Inr 0x1e0fffff \<and>
   spec_next_bits (pow_block 1000640 0x1e0fffff) 1000000 test_params = 0x1e21fffd \<and>
   \<not> fPowNoRetargeting main_consensus \<and>
   CalculateNextTargetRequired (pow_block 1000128 0x1f3fffff) 1000000 main_consensus
     = Inr 0x1f07fffe \<and>
   spec_next_bits (pow_block 1000128 0x1f3fffff) 1000000 main_consensus = 0x1f3fffff"
  by (simp only: code_ex2 code_ex3 spec_ex2 spec_ex3)
     (simp add: test_params_def main_consensus_def)

text \<open>C8 on the test network, at a tip with two proof-of-work blocks above the genesis block.\<close>

theorem C8_no_retargeting_witness:
  "fPowNoRetargeting test_params \<and>
   enough_history (CBlockIndex (Some pow_chain) 1000192 0x1e0ffff0 False) False \<and>
   GetNextTargetRequired (Some (CBlockIndex (Some pow_chain) 1000192 0x1e0ffff0 False))
     False test_params = Inr 0x1e0ffff0 \<and>
   GetNextTargetRequired None False test_params = Inr 0x1f3fffff"
proof -
  let ?tip = "CBlockIndex (Some pow_chain) 1000192 0x1e0ffff0 False"
  have h: "if False then fPosNoRetargeting test_params else fPowNoRetargeting test_params"
    by (simp add: test_params_def)
  have e: "enough_history ?tip False"
    by (simp add: enough_history_def pow_chain_def pow_block_def)
  have l: "GetCompact (powLimit test_params) = 0x1f3fffff"
    by (simp add: test_params_def GetCompact_powLimit)
  show ?thesis
    using C8_no_retargeting [OF h, of ?tip] e h l by simp
qed

text \<open>C5 at the target \<open>0x1e0fffff\<close>: a hash below it passes, a hash above it does not.\<close>

theorem C5_CheckProofOfWork_witness:
  "CheckProofOfWork 0x0000012340000000000000000000000000000000000000000000000000000000
     0x1e0fffff main_consensus \<and>
   \<not> CheckProofOfWork 0x0010000000000000000000000000000000000000000000000000000000000000
     0x1e0fffff main_consensus"
proof -
  have s: "SetCompact 0x1e0fffff
      = (0x0fffff000000000000000000000000000000000000000000000000000000, False, False)"
    by (simp add: SetCompact_def)
  show ?thesis
    unfolding C5_CheckProofOfWork s by (simp add: main_consensus_def)
qed

section \<open>Theorems: least-recently-used cache\<close>

lemma lru_inv_alt:
  "lru_inv c =
     (distinct (map fst (cacheItemsList c)) \<and> distinct (map fst (cacheItemsMap c)) \<and>
      set (cacheItemsMap c) = node_pair ` set (cacheItemsList c) \<and>
      (\<forall>node \<in> set (cacheItemsList c). fst node < next_node c))"
  by (simp add: lru_inv_def node_pair_def [abs_def] list_all_iff)

lemma read_entry_None_iff: "read_entry k m = None \<longleftrightarrow> k \<notin> fst ` set m"
  by (induction m) (auto split: if_splits)

lemma read_entry_Some_iff:
  "distinct (map fst m) \<Longrightarrow> read_entry k m = Some i \<longleftrightarrow> (k, i) \<in> set m"
  by (induction m) (auto split: if_splits simp: rev_image_eqI)

lemma write_entry_absent: "k \<notin> fst ` set m \<Longrightarrow> write_entry k v m = m @ [(k, v)]"
  by (induction m) auto

lemma map_erase_set:
  "distinct (map fst m) \<Longrightarrow> (k, i) \<in> set m \<Longrightarrow> set (map_erase k m) = set m - {(k, i)}"
  by (induction m) (auto simp: map_erase_def rev_image_eqI)

lemma map_erase_keys: "fst ` set (map_erase k m) = fst ` set m - {k}"
  by (auto simp: map_erase_def)

lemma map_erase_distinct: "distinct (map fst m) \<Longrightarrow> distinct (map fst (map_erase k m))"
  by (simp add: map_erase_def distinct_map_filter)

lemma map_erase_absent: "k \<notin> fst ` set m \<Longrightarrow> map_erase k m = m"
  by (induction m) (auto simp: map_erase_def)

lemma list_erase_distinct: "distinct (map fst xs) \<Longrightarrow> distinct (map fst (list_erase i xs))"
  by (simp add: list_erase_def distinct_map_filter)

lemma list_erase_set: "set (list_erase i xs) = {node \<in> set xs. fst node \<noteq> i}"
  by (auto simp: list_erase_def)

lemma list_erase_pairs:
  assumes "distinct (map fst xs)" and "node \<in> set xs" and "fst node = i"
  shows "node_pair ` set (list_erase i xs) = node_pair ` set xs - {node_pair node}"
proof (rule set_eqI, rule iffI)
  fix p
  assume "p \<in> node_pair ` set (list_erase i xs)"
  then obtain x where x: "x \<in> set xs" "fst x \<noteq> i" "p = node_pair x"
    by (auto simp: list_erase_set)
  then have "snd p \<noteq> snd (node_pair node)"
    using assms(3) by (simp add: node_pair_def)
  then show "p \<in> node_pair ` set xs - {node_pair node}"
    using x by auto
next
  fix p
  assume "p \<in> node_pair ` set xs - {node_pair node}"
  then obtain x where x: "x \<in> set xs" "p = node_pair x" "x \<noteq> node"
    by auto
  have "inj_on fst (set xs)" using assms(1) by (simp add: distinct_map)
  then have "fst x \<noteq> fst node" using x(1,3) assms(2) by (meson inj_onD)
  then have "x \<in> set (list_erase i xs)" using x(1) assms(3) by (simp add: list_erase_set)
  then show "p \<in> node_pair ` set (list_erase i xs)" using x(2) by blast
qed

lemma butlast_set_distinct:
  assumes "xs \<noteq> []" and "distinct xs"
  shows "set (butlast xs) = set xs - {last xs}"
proof -
  have eq: "butlast xs @ [last xs] = xs" using assms(1) by simp
  then have "distinct (butlast xs @ [last xs])" using assms(2) by simp
  then have notin: "last xs \<notin> set (butlast xs)" by simp
  have "set xs = set (butlast xs) \<union> {last xs}"
    using eq by (metis list.set(1) list.simps(15) set_append)
  then show ?thesis using notin by blast
qed

lemma lru_inv_new: "lru_inv (new_cache n)"
  by (simp add: lru_inv_def new_cache_def)

lemma lru_inv_Clear: "lru_inv c \<Longrightarrow> lru_inv (Clear c)"
  by (simp add: lru_inv_def Clear_def)

lemma lru_inv_SetSize: "lru_inv c \<Longrightarrow> lru_inv (SetSize n c)"
  by (simp add: lru_inv_def SetSize_def)

lemma lru_inv_lookup:
  assumes "lru_inv c" and "read_entry key (cacheItemsMap c) = Some i"
  obtains node where "node \<in> set (cacheItemsList c)" "fst node = i" "fst (snd node) = key"
proof -
  have "(key, i) \<in> set (cacheItemsMap c)"
    using assms by (simp add: lru_inv_alt read_entry_Some_iff)
  then have "(key, i) \<in> node_pair ` set (cacheItemsList c)"
    using assms(1) by (simp add: lru_inv_alt)
  then obtain node where "node \<in> set (cacheItemsList c)" "node_pair node = (key, i)"
    by auto
  then show ?thesis using that by (simp add: node_pair_def)
qed

lemma lru_inv_Erase:
  assumes "lru_inv c"
  shows "lru_inv (Erase key c)"
proof (cases "read_entry key (cacheItemsMap c)")
  case None
  then show ?thesis using assms by (simp add: Erase_def)
next
  case (Some i)
  obtain node where node: "node \<in> set (cacheItemsList c)" "fst node = i" "fst (snd node) = key"
    using assms Some by (rule lru_inv_lookup)
  have dL: "distinct (map fst (cacheItemsList c))" and dM: "distinct (map fst (cacheItemsMap c))"
    and eq: "set (cacheItemsMap c) = node_pair ` set (cacheItemsList c)"
    and lt: "\<forall>node \<in> set (cacheItemsList c). fst node < next_node c"
    using assms by (simp_all add: lru_inv_alt)
  have np: "node_pair node = (key, i)" using node by (simp add: node_pair_def)
  have inM: "(key, i) \<in> set (cacheItemsMap c)" using eq node(1) np by force
  have "set (map_erase key (cacheItemsMap c)) = node_pair ` set (list_erase i (cacheItemsList c))"
    using map_erase_set [OF dM inM] list_erase_pairs [OF dL node(1,2)] eq np by simp
  moreover have "\<forall>x \<in> set (list_erase i (cacheItemsList c)). fst x < next_node c"
    using lt by (simp add: list_erase_set)
  ultimately show ?thesis
    using Some dL dM
    by (simp add: Erase_def lru_inv_alt list_erase_distinct map_erase_distinct)
qed

lemma lru_inv_Get:
  assumes "lru_inv c" and "Get key c = Inr (v, c')"
  shows "lru_inv c'"
proof (cases "read_entry key (cacheItemsMap c)")
  case None
  then show ?thesis using assms(2) by (simp add: Get_def)
next
  case (Some i)
  obtain node where node: "node \<in> set (cacheItemsList c)" "fst node = i" "fst (snd node) = key"
    using assms(1) Some by (rule lru_inv_lookup)
  have dL: "distinct (map fst (cacheItemsList c))" and dM: "distinct (map fst (cacheItemsMap c))"
    and eq: "set (cacheItemsMap c) = node_pair ` set (cacheItemsList c)"
    and lt: "\<forall>node \<in> set (cacheItemsList c). fst node < next_node c"
    using assms(1) by (simp_all add: lru_inv_alt)
  have inj: "inj_on fst (set (cacheItemsList c))" using dL by (simp add: distinct_map)
  have only: "x = node" if "x \<in> set (cacheItemsList c)" "fst x = i" for x
    using inj_onD [OF inj _ that(1) node(1)] that(2) node(2) by simp
  have "filter (\<lambda>x. fst x = i) (cacheItemsList c) \<noteq> []"
    using node(1,2) by (auto simp: filter_empty_conv)
  then obtain y ys where f: "filter (\<lambda>x. fst x = i) (cacheItemsList c) = y # ys"
    by (cases "filter (\<lambda>x. fst x = i) (cacheItemsList c)") auto
  then have "y \<in> set (filter (\<lambda>x. fst x = i) (cacheItemsList c))" by simp
  then have y: "y = node" using only by simp
  have c': "c' = c\<lparr>cacheItemsList := node # list_erase i (cacheItemsList c)\<rparr>"
    using assms(2) Some f y by (simp add: Get_def)
  have sets: "set (node # list_erase i (cacheItemsList c)) = set (cacheItemsList c)"
    using node(1) only by (auto simp: list_erase_set)
  have "fst node \<notin> fst ` set (list_erase i (cacheItemsList c))"
    using node(2) by (auto simp: list_erase_set)
  then have "distinct (map fst (node # list_erase i (cacheItemsList c)))"
    using dL by (simp add: list_erase_distinct)
  then show ?thesis
    unfolding c' lru_inv_alt using dM eq lt sets by simp
qed

lemma lru_inv_pushed:
  assumes "lru_inv c"
  shows "lru_inv
    (c\<lparr>cacheItemsList :=
          (case read_entry key (cacheItemsMap c) of
             Some i \<Rightarrow> list_erase i ((next_node c, key, val) # cacheItemsList c)
           | None \<Rightarrow> (next_node c, key, val) # cacheItemsList c),
        cacheItemsMap :=
          write_entry key (next_node c)
            (case read_entry key (cacheItemsMap c) of
               Some i \<Rightarrow> map_erase key (cacheItemsMap c)
             | None \<Rightarrow> cacheItemsMap c),
        next_node := Suc (next_node c)\<rparr>)"
proof -
  let ?L = "cacheItemsList c" and ?M = "cacheItemsMap c" and ?n = "next_node c"
  have dL: "distinct (map fst ?L)" and dM: "distinct (map fst ?M)"
    and eq: "set ?M = node_pair ` set ?L"
    and lt: "\<forall>node \<in> set ?L. fst node < ?n"
    using assms by (simp_all add: lru_inv_alt)
  have fresh: "?n \<notin> fst ` set ?L" using lt by auto
  have np: "node_pair (?n, key, val) = (key, ?n)" by (simp add: node_pair_def)
  show ?thesis
  proof (cases "read_entry key ?M")
    case None
    then have absent: "key \<notin> fst ` set ?M" by (simp add: read_entry_None_iff)
    have "set (?M @ [(key, ?n)]) = node_pair ` set ((?n, key, val) # ?L)"
      using eq np by auto
    moreover have "distinct (map fst (?M @ [(key, ?n)]))" using dM absent by simp
    moreover have "distinct (map fst ((?n, key, val) # ?L))" using dL fresh by simp
    moreover have "\<forall>node \<in> set ((?n, key, val) # ?L). fst node < Suc ?n"
      using lt by (simp add: less_Suc_eq)
    ultimately show ?thesis
      using None absent by (simp add: lru_inv_alt write_entry_absent)
  next
    case (Some i)
    obtain node where node: "node \<in> set ?L" "fst node = i" "fst (snd node) = key"
      using assms Some by (rule lru_inv_lookup)
    have npn: "node_pair node = (key, i)" using node by (simp add: node_pair_def)
    have inM: "(key, i) \<in> set ?M" using eq node(1) npn by force
    have i_lt: "i < ?n" using lt node(1,2) by auto
    have erase_pushed: "list_erase i ((?n, key, val) # ?L) = (?n, key, val) # list_erase i ?L"
      using i_lt by (simp add: list_erase_def)
    have absent: "key \<notin> fst ` set (map_erase key ?M)" by (simp add: map_erase_keys)
    have Mset: "set (map_erase key ?M) = set ?M - {(key, i)}"
      using dM inM by (rule map_erase_set)
    have Lset: "node_pair ` set (list_erase i ?L) = node_pair ` set ?L - {(key, i)}"
      using list_erase_pairs [OF dL node(1,2)] npn by simp
    have "set (map_erase key ?M @ [(key, ?n)])
        = node_pair ` set ((?n, key, val) # list_erase i ?L)"
      using Mset Lset eq np by auto
    moreover have "distinct (map fst (map_erase key ?M @ [(key, ?n)]))"
      using map_erase_distinct [OF dM, of key] absent by simp
    moreover have "distinct (map fst ((?n, key, val) # list_erase i ?L))"
      using list_erase_distinct [OF dL, of i] fresh by (auto simp: list_erase_set)
    moreover have "\<forall>x \<in> set ((?n, key, val) # list_erase i ?L). fst x < Suc ?n"
      using lt by (auto simp: list_erase_set less_Suc_eq)
    ultimately show ?thesis
      using Some absent by (simp add: lru_inv_alt write_entry_absent erase_pushed)
  qed
qed

lemma lru_inv_evict:
  assumes "lru_inv c" and "cacheItemsList c \<noteq> []"
  shows "lru_inv (c\<lparr>cacheItemsList := butlast (cacheItemsList c),
                    cacheItemsMap := map_erase (fst (snd (last (cacheItemsList c))))
                                      (cacheItemsMap c)\<rparr>)"
    and "length (map_erase (fst (snd (last (cacheItemsList c)))) (cacheItemsMap c))
           < length (cacheItemsMap c)"
proof -
  let ?L = "cacheItemsList c" and ?M = "cacheItemsMap c"
  let ?ln = "last ?L"
  let ?k = "fst (snd ?ln)"
  have dL: "distinct (map fst ?L)" and dM: "distinct (map fst ?M)"
    and eq: "set ?M = node_pair ` set ?L"
    and lt: "\<forall>node \<in> set ?L. fst node < next_node c"
    using assms(1) by (simp_all add: lru_inv_alt)
  have dL': "distinct ?L" using dL by (simp add: distinct_map)
  have inj: "inj_on fst (set ?L)" using dL by (simp add: distinct_map)
  have ln: "?ln \<in> set ?L" using assms(2) by simp
  have np: "node_pair ?ln = (?k, fst ?ln)" by (simp add: node_pair_def)
  have inM: "(?k, fst ?ln) \<in> set ?M" using eq ln np by force
  have Mset: "set (map_erase ?k ?M) = set ?M - {(?k, fst ?ln)}"
    using dM inM by (rule map_erase_set)
  have Lset: "set (butlast ?L) = set ?L - {?ln}"
    using assms(2) dL' by (rule butlast_set_distinct)
  have inj_np: "inj_on node_pair (set ?L)"
    using inj by (auto simp: inj_on_def node_pair_def)
  have "node_pair ` (set ?L - {?ln}) = node_pair ` set ?L - {node_pair ?ln}"
    using inj_np ln by (simp add: inj_on_image_set_diff)
  then have "set (map_erase ?k ?M) = node_pair ` set (butlast ?L)"
    using Mset Lset eq np by simp
  moreover have "distinct (map fst (butlast ?L))"
    using distinct_butlast [OF dL] by (simp add: map_butlast)
  moreover have "\<forall>x \<in> set (butlast ?L). fst x < next_node c"
    using lt Lset by simp
  ultimately show "lru_inv (c\<lparr>cacheItemsList := butlast ?L, cacheItemsMap := map_erase ?k ?M\<rparr>)"
    using dM by (simp add: lru_inv_alt map_erase_distinct)
  have "length (filter (\<lambda>e. fst e \<noteq> ?k) ?M) < length ?M"
    using inM by (intro length_filter_less [of "(?k, fst ?ln)"]) simp_all
  then show "length (map_erase ?k ?M) < length ?M" by (simp add: map_erase_def)
qed

lemma length_write_entry: "length (write_entry k v m) \<le> Suc (length m)"
  by (induction m) auto

lemma write_entry_nonempty: "write_entry k v m \<noteq> []"
  by (cases m) (auto split: if_splits)

text \<open>The cache after the first half of \<open>Put\<close>, before the test of the bound.\<close>

lemma Put_two_steps:
  "Put key val c =
     (let c1 = c\<lparr>cacheItemsList :=
                  (case read_entry key (cacheItemsMap c) of
                     Some i \<Rightarrow> list_erase i ((next_node c, key, val) # cacheItemsList c)
                   | None \<Rightarrow> (next_node c, key, val) # cacheItemsList c),
                cacheItemsMap :=
                  write_entry key (next_node c)
                    (case read_entry key (cacheItemsMap c) of
                       Some i \<Rightarrow> map_erase key (cacheItemsMap c)
                     | None \<Rightarrow> cacheItemsMap c),
                next_node := Suc (next_node c)\<rparr>
      in if length (cacheItemsMap c1) > maxSize c
         then c1\<lparr>cacheItemsList := butlast (cacheItemsList c1),
                 cacheItemsMap :=
                   map_erase (fst (snd (last (cacheItemsList c1)))) (cacheItemsMap c1)\<rparr>
         else c1)"
  by (simp add: Put_def Let_def)

lemma lru_inv_node_key:
  assumes "lru_inv c" and "read_entry key (cacheItemsMap c) = Some i"
    and "x \<in> set (cacheItemsList c)"
  shows "fst x = i \<longleftrightarrow> fst (snd x) = key"
proof
  obtain node where node: "node \<in> set (cacheItemsList c)" "fst node = i" "fst (snd node) = key"
    using assms(1,2) by (rule lru_inv_lookup)
  have inj: "inj_on fst (set (cacheItemsList c))"
    using assms(1) by (simp add: lru_inv_alt distinct_map)
  assume "fst x = i"
  then have "x = node" using inj_onD [OF inj _ assms(3) node(1)] node(2) by simp
  then show "fst (snd x) = key" using node(3) by simp
next
  assume k: "fst (snd x) = key"
  have dM: "distinct (map fst (cacheItemsMap c))"
    and eq: "set (cacheItemsMap c) = node_pair ` set (cacheItemsList c)"
    using assms(1) by (simp_all add: lru_inv_alt)
  have "node_pair x \<in> set (cacheItemsMap c)" using eq assms(3) by blast
  then have "(key, fst x) \<in> set (cacheItemsMap c)" using k by (simp add: node_pair_def)
  then have "read_entry key (cacheItemsMap c) = Some (fst x)"
    using dM by (simp add: read_entry_Some_iff)
  then show "fst x = i" using assms(2) by simp
qed

lemma filter_snd_key:
  "map snd (filter (\<lambda>x. fst (snd x) \<noteq> key) xs) = filter (\<lambda>e. fst e \<noteq> key) (map snd xs)"
  by (induction xs) simp_all

lemma GetItemsList_list_erase:
  assumes "lru_inv c" and "read_entry key (cacheItemsMap c) = Some i"
  shows "map snd (list_erase i (cacheItemsList c))
           = filter (\<lambda>e. fst e \<noteq> key) (GetItemsList c)"
proof -
  have "filter (\<lambda>x. fst x \<noteq> i) (cacheItemsList c)
          = filter (\<lambda>x. fst (snd x) \<noteq> key) (cacheItemsList c)"
    using lru_inv_node_key [OF assms] by (intro filter_cong) simp_all
  then show ?thesis by (simp add: list_erase_def GetItemsList_def filter_snd_key)
qed

lemma lru_inv_keys:
  assumes "lru_inv c"
  shows "map_keys c = list_keys c" and "length (cacheItemsList c) = Size c"
    and "distinct (map fst (GetItemsList c))"
proof -
  have dL: "distinct (map fst (cacheItemsList c))" and dM: "distinct (map fst (cacheItemsMap c))"
    and eq: "set (cacheItemsMap c) = node_pair ` set (cacheItemsList c)"
    using assms by (simp_all add: lru_inv_alt)
  show "map_keys c = list_keys c"
    unfolding map_keys_def list_keys_def eq by (force simp: node_pair_def)
  have inj: "inj_on node_pair (set (cacheItemsList c))"
    using dL by (auto simp: distinct_map inj_on_def node_pair_def)
  have "card (set (cacheItemsMap c)) = card (set (cacheItemsList c))"
    unfolding eq using inj by (rule card_image)
  moreover have dists: "distinct (cacheItemsMap c)" "distinct (cacheItemsList c)"
    using dL dM by (simp_all add: distinct_map)
  ultimately show "length (cacheItemsList c) = Size c"
    by (simp add: Size_def distinct_card)
  have "inj_on (\<lambda>x. fst (snd x)) (set (cacheItemsList c))"
  proof (rule inj_onI)
    fix x y
    assume x: "x \<in> set (cacheItemsList c)" and y: "y \<in> set (cacheItemsList c)"
      and k: "fst (snd x) = fst (snd y)"
    have "node_pair x \<in> set (cacheItemsMap c)" using eq x by blast
    then have "(fst (snd y), fst x) \<in> set (cacheItemsMap c)" using k by (simp add: node_pair_def)
    then have r: "read_entry (fst (snd y)) (cacheItemsMap c) = Some (fst x)"
      using dM by (simp add: read_entry_Some_iff)
    have "fst y = fst x" using lru_inv_node_key [OF assms r y] by simp
    moreover have "inj_on fst (set (cacheItemsList c))" using dL by (simp add: distinct_map)
    ultimately show "x = y" using x y by (simp add: inj_on_def)
  qed
  then have "distinct (map (\<lambda>x. fst (snd x)) (cacheItemsList c))"
    using dists(2) by (simp add: distinct_map)
  then show "distinct (map fst (GetItemsList c))"
    by (simp add: GetItemsList_def o_def)
qed

lemma GetItemsList_absent:
  assumes "lru_inv c" and "read_entry key (cacheItemsMap c) = None"
  shows "filter (\<lambda>e. fst e \<noteq> key) (GetItemsList c) = GetItemsList c"
proof -
  have "key \<notin> map_keys c" using assms(2) by (simp add: read_entry_None_iff map_keys_def)
  then have "key \<notin> list_keys c" using lru_inv_keys(1) [OF assms(1)] by simp
  then have "key \<notin> fst ` set (GetItemsList c)"
    by (simp add: list_keys_def GetItemsList_def image_image)
  then show ?thesis by (intro filter_True) auto
qed

lemma Exists_iff:
  assumes "lru_inv c"
  shows "Exists key c \<longleftrightarrow> key \<in> fst ` set (GetItemsList c)"
proof -
  have "Exists key c \<longleftrightarrow> key \<in> map_keys c"
    by (simp add: Exists_def read_entry_None_iff map_keys_def)
  also have "\<dots> \<longleftrightarrow> key \<in> list_keys c" using lru_inv_keys(1) [OF assms] by simp
  also have "\<dots> \<longleftrightarrow> key \<in> fst ` set (GetItemsList c)"
    by (simp add: list_keys_def GetItemsList_def image_image)
  finally show ?thesis .
qed

lemma lru_Put:
  assumes "lru_inv c"
  shows "lru_inv (Put key val c)"
    and "Size (Put key val c) \<le> max (Size c) (maxSize c)"
    and "GetItemsList (Put key val c) =
           (let l = (key, val) # filter (\<lambda>e. fst e \<noteq> key) (GetItemsList c)
            in if maxSize c < length l then butlast l else l)"
proof -
  define c1 where "c1 =
    c\<lparr>cacheItemsList :=
          (case read_entry key (cacheItemsMap c) of
             Some i \<Rightarrow> list_erase i ((next_node c, key, val) # cacheItemsList c)
           | None \<Rightarrow> (next_node c, key, val) # cacheItemsList c),
        cacheItemsMap :=
          write_entry key (next_node c)
            (case read_entry key (cacheItemsMap c) of
               Some i \<Rightarrow> map_erase key (cacheItemsMap c)
             | None \<Rightarrow> cacheItemsMap c),
        next_node := Suc (next_node c)\<rparr>"
  have inv1: "lru_inv c1" unfolding c1_def using assms by (rule lru_inv_pushed)
  have put: "Put key val c =
      (if length (cacheItemsMap c1) > maxSize c
       then c1\<lparr>cacheItemsList := butlast (cacheItemsList c1),
               cacheItemsMap := map_erase (fst (snd (last (cacheItemsList c1)))) (cacheItemsMap c1)\<rparr>
       else c1)"
    unfolding c1_def by (simp add: Put_two_steps Let_def)
  have "cacheItemsMap c1 \<noteq> []" by (simp add: c1_def write_entry_nonempty)
  then have "set (cacheItemsMap c1) \<noteq> {}" by simp
  then have ne: "cacheItemsList c1 \<noteq> []" using inv1 by (auto simp: lru_inv_alt)
  show "lru_inv (Put key val c)"
    using inv1 lru_inv_evict(1) [OF inv1 ne] by (simp add: put)
  have len1: "length (cacheItemsMap c1) \<le> Suc (length (cacheItemsMap c))"
  proof (cases "read_entry key (cacheItemsMap c)")
    case None
    then show ?thesis using length_write_entry [of key "next_node c" "cacheItemsMap c"]
      by (simp add: c1_def)
  next
    case (Some i)
    have "length (map_erase key (cacheItemsMap c)) \<le> length (cacheItemsMap c)"
      by (simp add: map_erase_def)
    then show ?thesis
      using Some length_write_entry [of key "next_node c" "map_erase key (cacheItemsMap c)"]
      by (simp add: c1_def)
  qed
  show "Size (Put key val c) \<le> max (Size c) (maxSize c)"
    using len1 lru_inv_evict(2) [OF inv1 ne] by (auto simp add: put Size_def)
  have items1: "map snd (cacheItemsList c1)
      = (key, val) # filter (\<lambda>e. fst e \<noteq> key) (GetItemsList c)"
  proof (cases "read_entry key (cacheItemsMap c)")
    case None
    then show ?thesis
      using GetItemsList_absent [OF assms None] by (simp add: c1_def GetItemsList_def)
  next
    case (Some i)
    obtain node where node: "node \<in> set (cacheItemsList c)" "fst node = i"
      using assms Some by (rule lru_inv_lookup)
    have "i < next_node c" using assms node by (auto simp: lru_inv_alt)
    then have "list_erase i ((next_node c, key, val) # cacheItemsList c)
        = (next_node c, key, val) # list_erase i (cacheItemsList c)"
      by (simp add: list_erase_def)
    then show ?thesis
      using Some GetItemsList_list_erase [OF assms Some] by (simp add: c1_def)
  qed
  have len: "length (cacheItemsMap c1) = length (map snd (cacheItemsList c1))"
    using lru_inv_keys(2) [OF inv1] by (simp add: Size_def)
  show "GetItemsList (Put key val c) =
           (let l = (key, val) # filter (\<lambda>e. fst e \<noteq> key) (GetItemsList c)
            in if maxSize c < length l then butlast l else l)"
    unfolding Let_def items1 [symmetric] len [symmetric]
    by (simp add: put GetItemsList_def map_butlast)
qed

lemma lru_Get:
  assumes "lru_inv c"
  shows "case Get key c of
           Inl e \<Rightarrow> \<not> Exists key c
         | Inr r \<Rightarrow> Exists key c \<and> (key, fst r) \<in> set (GetItemsList c) \<and>
                    GetItemsList (snd r)
                      = (key, fst r) # filter (\<lambda>e. fst e \<noteq> key) (GetItemsList c)"
proof (cases "read_entry key (cacheItemsMap c)")
  case None
  then show ?thesis by (simp add: Get_def Exists_def)
next
  case (Some i)
  obtain node where node: "node \<in> set (cacheItemsList c)" "fst node = i" "fst (snd node) = key"
    using assms(1) Some by (rule lru_inv_lookup)
  have inj: "inj_on fst (set (cacheItemsList c))"
    using assms by (simp add: lru_inv_alt distinct_map)
  have only: "x = node" if "x \<in> set (cacheItemsList c)" "fst x = i" for x
    using inj_onD [OF inj _ that(1) node(1)] that(2) node(2) by simp
  have "filter (\<lambda>x. fst x = i) (cacheItemsList c) \<noteq> []"
    using node(1,2) by (auto simp: filter_empty_conv)
  then obtain y ys where f: "filter (\<lambda>x. fst x = i) (cacheItemsList c) = y # ys"
    by (cases "filter (\<lambda>x. fst x = i) (cacheItemsList c)") auto
  then have "y \<in> set (filter (\<lambda>x. fst x = i) (cacheItemsList c))" by simp
  then have y: "y = node" using only by simp
  have get: "Get key c = Inr (snd (snd node),
      c\<lparr>cacheItemsList := node # list_erase i (cacheItemsList c)\<rparr>)"
    using Some f y by (simp add: Get_def)
  have sn: "snd node = (key, snd (snd node))" using node(3) by (cases node) auto
  have "snd node \<in> set (GetItemsList c)" using node(1) by (simp add: GetItemsList_def)
  then have mem: "(key, snd (snd node)) \<in> set (GetItemsList c)" using sn by simp
  have "GetItemsList (c\<lparr>cacheItemsList := node # list_erase i (cacheItemsList c)\<rparr>)
      = (key, snd (snd node)) # filter (\<lambda>e. fst e \<noteq> key) (GetItemsList c)"
    using GetItemsList_list_erase [OF assms Some] sn by (simp add: GetItemsList_def)
  then show ?thesis using mem Some by (simp add: get Exists_def)
qed

lemma lru_Erase:
  assumes "lru_inv c"
  shows "GetItemsList (Erase key c) = filter (\<lambda>e. fst e \<noteq> key) (GetItemsList c)"
proof (cases "read_entry key (cacheItemsMap c)")
  case None
  then show ?thesis using GetItemsList_absent [OF assms None] by (simp add: Erase_def)
next
  case (Some i)
  then show ?thesis
    using GetItemsList_list_erase [OF assms Some] by (simp add: Erase_def GetItemsList_def)
qed

lemma lru_size_other:
  "Size (Erase key c) \<le> Size c" "Size (Clear c) = 0"
  "Get key c = Inr (v, c') \<Longrightarrow> Size c' = Size c \<and> maxSize c' = maxSize c"
  "maxSize (Erase key c) = maxSize c" "maxSize (Clear c) = maxSize c"
  "maxSize (Put key val c) = maxSize c"
  by (auto simp: Erase_def Clear_def Get_def Put_def Let_def Size_def map_erase_def
      split: option.splits list.splits)

lemma lru_step_inv: "lru_inv c \<Longrightarrow> lru_inv (lru_step x c)"
proof (cases x)
  case (OpGet k)
  assume "lru_inv c"
  then show ?thesis using OpGet lru_inv_Get [of c k]
    by (cases "Get k c") auto
qed (simp_all add: lru_Put(1) lru_inv_Erase lru_inv_Clear lru_inv_SetSize)

text \<open>No operation takes the number of entries above both its old value and the bound.\<close>

lemma lru_step_size:
  assumes "lru_inv c"
  shows "Size (lru_step x c) \<le> max (Size c) (maxSize (lru_step x c))"
proof (cases x)
  case (OpPut k v)
  then show ?thesis using lru_Put(2) [OF assms, of k v] by (simp add: lru_size_other(6))
next
  case (OpGet k)
  then show ?thesis using lru_size_other(3) [of k c]
    by (cases "Get k c") auto
next
  case (OpErase k)
  then show ?thesis using lru_size_other(1) [of k c] by simp
next
  case OpClear
  then show ?thesis by (simp add: lru_size_other)
next
  case (OpSetSize m)
  then show ?thesis by (simp add: SetSize_def Size_def)
qed

lemma lru_step_MaxSize:
  "MaxSize (lru_step x c) = (case x of OpSetSize m \<Rightarrow> m | _ \<Rightarrow> MaxSize c)"
proof (cases x)
  case (OpGet k)
  then show ?thesis using lru_size_other(3) [of k c]
    by (cases "Get k c") (auto simp: MaxSize_def)
qed (simp_all add: MaxSize_def lru_size_other SetSize_def)

lemma lru_step_bounded:
  assumes "lru_inv c" and "Size c \<le> maxSize c"
    and "case x of OpSetSize m \<Rightarrow> Size c \<le> m | _ \<Rightarrow> True"
  shows "Size (lru_step x c) \<le> maxSize (lru_step x c)"
proof (cases x)
  case (OpSetSize m)
  then show ?thesis using assms(3) by (simp add: SetSize_def Size_def)
next
  case (OpPut k v)
  then show ?thesis using lru_step_size [OF assms(1), of x] assms(2)
    by (simp add: lru_size_other(6))
next
  case (OpGet k)
  then show ?thesis using assms(2) lru_size_other(3) [of k c]
    by (cases "Get k c") auto
next
  case (OpErase k)
  then show ?thesis using assms(2) lru_size_other(1,4) [of k c] by simp
next
  case OpClear
  then show ?thesis by (simp add: lru_size_other)
qed

lemma lru_run_inv: "lru_inv c \<Longrightarrow> lru_inv (lru_run xs c)"
  by (induction xs arbitrary: c) (simp_all add: lru_step_inv)

lemma lru_run_bounded:
  "lru_inv c \<Longrightarrow> Size c \<le> maxSize c \<Longrightarrow> SetSize_not_below xs c
     \<Longrightarrow> Size (lru_run xs c) \<le> maxSize (lru_run xs c)"
  by (induction xs arbitrary: c) (simp_all add: lru_step_inv lru_step_bounded)

text \<open>
  Claim C9, as the code has it.  Let \<open>c\<close> be the cache after any sequence of \<open>Put\<close>,
  \<open>Get\<close>, \<open>Erase\<close>, \<open>Clear\<close> and \<open>SetSize\<close> on a cache made by \<open>CLRUCache(n)\<close>
  (\<open>CLRUCache()\<close> is \<open>n = 0\<close>).  Then

  \<^item> the map and the list hold the same keys and equally many entries, each key once, and
    \<open>Exists\<close> tells whether a key is in the list;
  \<^item> \<open>c\<close> holds at most \<open>MaxSize()\<close> entries when no \<open>SetSize\<close> of the sequence put the
    bound below the number of entries held at that moment, and whatever the sequence was,
    no further operation takes the number of entries above both its present value and the
    bound that is in force after it;
  \<^item> \<open>SetSize(m)\<close> makes \<open>m\<close> the bound and leaves the list as it is, no other
    operation changes the bound, and \<open>Clear\<close> empties the list;
  \<^item> \<open>Put(key, val)\<close> takes the pair to the front of the list, removes the old entry of
    that key, and when the list is then longer than \<open>MaxSize()\<close> drops its last entry,
    which is the least recently used one, and no other;
  \<^item> \<open>Get(key)\<close> throws exactly when the key is absent, and otherwise returns the value
    held for the key and takes that entry to the front of the list; \<open>Erase(key)\<close> removes
    the entry of the key and keeps the order of the others.
\<close>

theorem C9_map_and_list_in_step:
  "let c = lru_run xs (new_cache n) in
     map_keys c = list_keys c \<and>
     length (cacheItemsList c) = Size c \<and>
     distinct (map fst (GetItemsList c)) \<and>
     Exists key c = (key \<in> fst ` set (GetItemsList c)) \<and>
     (SetSize_not_below xs (new_cache n) \<longrightarrow> Size c \<le> MaxSize c) \<and>
     Size (lru_step x c) \<le> max (Size c) (MaxSize (lru_step x c)) \<and>
     MaxSize (lru_step x c) = (case x of OpSetSize m \<Rightarrow> m | _ \<Rightarrow> MaxSize c) \<and>
     GetItemsList (SetSize m c) = GetItemsList c \<and>
     GetItemsList (Clear c) = [] \<and>
     GetItemsList (Put key val c) =
       (let l = (key, val) # filter (\<lambda>e. fst e \<noteq> key) (GetItemsList c)
        in if MaxSize c < length l then butlast l else l) \<and>
     (case Get key c of
        Inl e \<Rightarrow> \<not> Exists key c
      | Inr r \<Rightarrow> Exists key c \<and> (key, fst r) \<in> set (GetItemsList c) \<and>
                 GetItemsList (snd r)
                   = (key, fst r) # filter (\<lambda>e. fst e \<noteq> key) (GetItemsList c)) \<and>
     GetItemsList (Erase key c) = filter (\<lambda>e. fst e \<noteq> key) (GetItemsList c)"
proof -
  define c where "c = lru_run xs (new_cache n :: ('a, 'b) CLRUCache)"
  have inv: "lru_inv c"
    unfolding c_def using lru_inv_new by (rule lru_run_inv)
  have "Size (new_cache n :: ('a, 'b) CLRUCache) \<le> maxSize (new_cache n :: ('a, 'b) CLRUCache)"
    by (simp add: Size_def new_cache_def)
  then have bound: "SetSize_not_below xs (new_cache n) \<Longrightarrow> Size c \<le> MaxSize c"
    unfolding MaxSize_def c_def using lru_inv_new by (intro lru_run_bounded)
  have step: "Size (lru_step x c) \<le> max (Size c) (MaxSize (lru_step x c))"
    unfolding MaxSize_def using inv by (rule lru_step_size)
  have put: "GetItemsList (Put key val c) =
       (let l = (key, val) # filter (\<lambda>e. fst e \<noteq> key) (GetItemsList c)
        in if MaxSize c < length l then butlast l else l)"
    unfolding MaxSize_def using inv by (rule lru_Put(3))
  have mx: "MaxSize (lru_step x c) = (case x of OpSetSize m \<Rightarrow> m | _ \<Rightarrow> MaxSize c)"
    by (rule lru_step_MaxSize)
  have other: "GetItemsList (SetSize m c) = GetItemsList c" "GetItemsList (Clear c) = []"
    by (simp_all add: GetItemsList_def SetSize_def Clear_def)
  show ?thesis
    unfolding Let_def c_def [symmetric]
    using lru_inv_keys [OF inv] Exists_iff [OF inv, of key] bound step mx other
      put [unfolded Let_def] lru_Get [OF inv, of key] lru_Erase [OF inv, of key]
    by blast
qed

lemmas lru_eval = Put_def Get_def Erase_def SetSize_def new_cache_def list_erase_def
  map_erase_def Size_def MaxSize_def Let_def

text \<open>
  C9 on a cache made by \<open>CLRUCache()\<close>: after \<open>SetSize(2)\<close>, \<open>Put(1)\<close>, \<open>Put(2)\<close>,
  \<open>Get(1)\<close> the list is 1, 2, and \<open>Put(3)\<close> then drops the least recently used key 2.
\<close>

lemma lru_example:
  "lru_run [OpSetSize 2, OpPut 1 10, OpPut 2 20, OpGet 1] (new_cache 0 :: (nat, nat) CLRUCache)
     = \<lparr>cacheItemsList = [(0, 1, 10), (1, 2, 20)], cacheItemsMap = [(1, 0), (2, 1)],
        maxSize = 2, next_node = 2\<rparr>"
  by (simp add: lru_eval)

lemma lru_example_respected:
  "SetSize_not_below [OpSetSize 2, OpPut 1 10, OpPut 2 20, OpGet 1]
     (new_cache 0 :: (nat, nat) CLRUCache)"
  by (simp add: lru_eval)

theorem C9_map_and_list_in_step_witness:
  "SetSize_not_below [OpSetSize 2, OpPut (1::nat) (10::nat), OpPut 2 20, OpGet 1] (new_cache 0) \<and>
   GetItemsList (lru_run [OpSetSize 2, OpPut (1::nat) (10::nat), OpPut 2 20, OpGet 1]
     (new_cache 0)) = [(1, 10), (2, 20)] \<and>
   Size (lru_run [OpSetSize 2, OpPut (1::nat) (10::nat), OpPut 2 20, OpGet 1] (new_cache 0))
     \<le> MaxSize (lru_run [OpSetSize 2, OpPut (1::nat) (10::nat), OpPut 2 20, OpGet 1]
          (new_cache 0)) \<and>
   GetItemsList (Put 3 30 (lru_run [OpSetSize 2, OpPut (1::nat) (10::nat), OpPut 2 20, OpGet 1]
     (new_cache 0))) = [(3, 30), (1, 10)]"
proof -
  have k: "GetItemsList (lru_run [OpSetSize 2, OpPut (1::nat) (10::nat), OpPut 2 20, OpGet 1]
     (new_cache 0)) = [(1, 10), (2, 20)]"
    by (simp only: lru_example) (simp add: GetItemsList_def)
  have m: "MaxSize (lru_run [OpSetSize 2, OpPut (1::nat) (10::nat), OpPut 2 20, OpGet 1]
     (new_cache 0)) = 2"
    by (simp only: lru_example) (simp add: MaxSize_def)
  show ?thesis
    using lru_example_respected k m C9_map_and_list_in_step
      [of "[OpSetSize 2, OpPut (1::nat) (10::nat), OpPut 2 20, OpGet 1]" 0 3 "OpClear" 0 30]
    by (simp add: Let_def)
qed

text \<open>
  Claim C9 as stated fails after a \<open>SetSize\<close> below the number of entries held:
  \<open>SetSize\<close> sets the bound and evicts nothing, so a cache of two entries holds two
  entries after \<open>SetSize(1)\<close>.
\<close>

theorem C9_counterexample:
  "Size (lru_run [OpPut (1::nat) (10::nat), OpPut 2 20, OpSetSize 1] (new_cache 2)) = 2 \<and>
   MaxSize (lru_run [OpPut (1::nat) (10::nat), OpPut 2 20, OpSetSize 1] (new_cache 2)) = 1"
  by (simp add: lru_eval)

section \<open>Theorems: block template assembler\<close>

subsection \<open>The loop ends\<close>

lemma best_modified_in: "best_modified cmp ms = Some m \<Longrightarrow> m \<in> set ms"
  by (induction ms arbitrary: m) (auto split: option.splits if_splits)

lemma best_modified_None: "best_modified cmp ms = None \<longleftrightarrow> ms = []"
  by (cases ms) (auto split: option.splits)

lemma erase_modified_shorter:
  "m \<in> set ms \<Longrightarrow> length (erase_modified (iter m) ms) < length ms"
  unfolding erase_modified_def by (rule length_filter_less [of m]) simp_all

lemma choose_candidate_cases:
  assumes "choose_candidate opts pool st = Some (it, modit, mi')"
  shows "(modit = None \<and> mi st = it # mi') \<or>
         (\<exists>m. modit = Some m \<and> m \<in> set (mapModifiedTx st) \<and> it = iter m \<and> mi' = mi st)"
proof (cases "best_modified (CompareModifiedEntry opts) (mapModifiedTx st)")
  case None
  then show ?thesis using assms
    by (cases "mi st") (simp_all add: choose_candidate_def)
next
  case (Some b)
  then have b: "b \<in> set (mapModifiedTx st)" by (rule best_modified_in)
  show ?thesis
  proof (cases "mi st")
    case Nil
    then have "modit = Some b \<and> it = iter b \<and> mi' = mi st"
      using assms Some by (simp add: choose_candidate_def)
    then show ?thesis using b by blast
  next
    case (Cons a rest)
    show ?thesis
    proof (cases "CompareModifiedEntry opts b (ModifiedEntry pool a)")
      case True
      then have "modit = Some b \<and> it = iter b \<and> mi' = mi st"
        using assms Some Cons by (simp add: choose_candidate_def)
      then show ?thesis using b by blast
    next
      case False
      then have "modit = None \<and> mi st = it # mi'"
        using assms Some Cons by (simp add: choose_candidate_def)
      then show ?thesis by blast
    qed
  qed
qed

lemma candidates_left_mark_failed:
  assumes "choose_candidate opts pool st = Some (it, modit, mi')"
  shows "candidates_left (mark_failed it modit (st\<lparr>mi := mi'\<rparr>)) < candidates_left st"
  using choose_candidate_cases [OF assms] erase_modified_shorter
  by (auto simp: candidates_left_def mark_failed_def)

lemma inBlock_mark_failed [simp]: "inBlock (mark_failed it modit st) = inBlock st"
  by (simp add: mark_failed_def split: option.splits)

lemma inBlock_fold_add:
  "set (inBlock (fold (\<lambda>e s. (AddToBlock pool e s)
        \<lparr>mapModifiedTx := erase_modified e (mapModifiedTx (AddToBlock pool e s))\<rparr>) es st))
     = set (inBlock st) \<union> set es"
  by (induction es arbitrary: st) (auto simp: AddToBlock_def)

lemma set_SortForBlock [simp]: "set (SortForBlock pool package) = set package"
  by (simp add: SortForBlock_def)

lemma inBlock_add_package:
  "set (inBlock (add_package pool package st)) = set (inBlock st) \<union> set package"
  by (simp add: add_package_def Let_def inBlock_fold_add)

lemma filter_length_strict:
  assumes "\<And>x. x \<in> set xs \<Longrightarrow> Q x \<Longrightarrow> P x" and "y \<in> set xs" and "P y" and "\<not> Q y"
  shows "length (filter Q xs) < length (filter P xs)"
proof -
  have "filter Q xs = filter Q (filter P xs)"
    using assms(1) by (induction xs) auto
  moreover have "length (filter Q (filter P xs)) < length (filter P xs)"
    using assms(2,3,4) by (intro length_filter_less [of y]) simp_all
  ultimately show ?thesis by simp
qed

lemma entries_left_add_package:
  assumes "it \<in> set (mapTx pool)" and "it \<notin> set (inBlock st)" and "it \<in> set package"
  shows "entries_left pool (add_package pool package st) < entries_left pool st"
  unfolding entries_left_def
  using assms by (intro filter_length_strict [of _ _ _ it]) (simp_all add: inBlock_add_package)

lemma package_of_contains [simp]: "it \<in> set (package_of pool st it)"
  by (simp add: package_of_def)

lemma addPackageTxs_step_decreases:
  assumes "addPackageTxs_step opts pool st = Continue st'"
  shows "entries_left pool st' < entries_left pool st \<or>
         (entries_left pool st' = entries_left pool st \<and> candidates_left st' < candidates_left st)"
proof (cases "mi st \<noteq> [] \<and> SkipMapTxEntry (hd (mi st)) st")
  case True
  then have "st' = st\<lparr>mi := tl (mi st)\<rparr>"
    using assms by (simp add: addPackageTxs_step_def)
  then show ?thesis using True
    by (simp add: entries_left_def candidates_left_def)
next
  case False
  then have noskip: "\<not> (mi st \<noteq> [] \<and> SkipMapTxEntry (hd (mi st)) st)" .
  have nonempty: "\<not> (mi st = [] \<and> mapModifiedTx st = [])"
    using assms by (auto simp: addPackageTxs_step_def)
  obtain it modit mi' where ch: "choose_candidate opts pool st = Some (it, modit, mi')"
    using assms noskip nonempty
    by (cases "choose_candidate opts pool st") (auto simp: addPackageTxs_step_def)
  let ?st1 = "st\<lparr>mi := mi'\<rparr>"
  have guards: "it \<notin> set (inBlock st)" "it \<in> set (mapTx pool)"
    using assms noskip nonempty ch
    by (auto simp: addPackageTxs_step_def split: if_splits)
  have el: "entries_left pool (mark_failed it modit ?st1) = entries_left pool st"
    by (simp add: entries_left_def)
  consider
      (fail1) "st' = (mark_failed it modit ?st1)\<lparr>nConsecutiveFailed := nConsecutiveFailed ?st1 + 1\<rparr>"
    | (fail2) "st' = mark_failed it modit ?st1"
    | (added) "st' = add_package pool (package_of pool ?st1 it) ?st1"
    using assms noskip nonempty ch guards
    by (auto simp: addPackageTxs_step_def Let_def split: if_splits)
  then show ?thesis
  proof cases
    case fail1
    then show ?thesis
      using candidates_left_mark_failed [OF ch] el
      by (simp add: entries_left_def candidates_left_def)
  next
    case fail2
    then show ?thesis using candidates_left_mark_failed [OF ch] el by simp
  next
    case added
    have "entries_left pool st' < entries_left pool ?st1"
      unfolding added using guards by (intro entries_left_add_package [of it]) simp_all
    then show ?thesis by (simp add: entries_left_def)
  qed
qed

function addPackageTxs_loop ::
  "assembler_options \<Rightarrow> CTxMemPool \<Rightarrow> BlockAssembler \<Rightarrow> assembler_error + BlockAssembler" where
  "addPackageTxs_loop opts pool st =
     (case addPackageTxs_step opts pool st of
        Continue st' \<Rightarrow> addPackageTxs_loop opts pool st'
      | Break st' \<Rightarrow> Inr st'
      | Failure e \<Rightarrow> Inl e)"
  by pat_completeness auto
termination
  apply (relation "inv_image (less_than <*lex*> less_than)
    (\<lambda>(opts, pool, st). (entries_left pool st, candidates_left st))")
   apply (intro wf_inv_image wf_lex_prod wf_less_than)
  apply (auto dest: addPackageTxs_step_decreases)
  done

declare addPackageTxs_loop.simps [simp del]

text \<open>
  \<open>addPackageTxs\<close>: the locals are initialised, the descendants of what is in the block
  already go to \<open>mapModifiedTx\<close> (the number of updates is dropped here), and the loop
  runs.
\<close>

definition addPackageTxs ::
  "assembler_options \<Rightarrow> CTxMemPool \<Rightarrow> BlockAssembler \<Rightarrow> assembler_error + BlockAssembler" where
  "addPackageTxs opts pool st =
     addPackageTxs_loop opts pool
       (st\<lparr>mapModifiedTx := snd (UpdatePackagesForAdded pool (inBlock st) []),
           failedTx := [], mi := mapTx pool, nConsecutiveFailed := 0\<rparr>)"

text \<open>
  \<open>CreateNewBlock\<close> as far as the choice of the transactions goes: \<open>resetBlock\<close>, the new
  template with its dummy coinbase (fee and sigop cost \<open>-1\<close>, "updated at end"), the two
  counters, and \<open>addPackageTxs\<close>.  \<open>st\<close> is the assembler as the call finds it.  What
  follows in the source (coinbase, coinstake, header, \<open>TestBlockValidity\<close>) adds no
  transaction of the mempool and removes none.
\<close>

definition CreateNewBlock ::
  "assembler_options \<Rightarrow> CTxMemPool \<Rightarrow> BlockAssembler \<Rightarrow> assembler_error + BlockAssembler" where
  "CreateNewBlock opts pool st =
     addPackageTxs opts pool
       ((resetBlock st)\<lparr>vtx := [], vTxFees := [-1], vTxSigOpsCost := [-1],
                        nPackagesSelected := 0, nDescendantsUpdated := 0\<rparr>)"

lemma CreateNewBlock_start:
  obtains s0 where "CreateNewBlock opts pool st = addPackageTxs_loop opts pool s0"
    and "vtx s0 = []" and "inBlock s0 = []" and "mapModifiedTx s0 = []" and "failedTx s0 = []"
    and "mi s0 = mapTx pool" and "nBlockWeight s0 = 4000" and "nBlockSigOpsCost s0 = 400"
proof
  let ?s0 = "st\<lparr>inBlock := [], nBlockWeight := 4000, nBlockSigOpsCost := 400, nBlockTx := 0,
                nFees := 0, vtx := [], vTxFees := [-1], vTxSigOpsCost := [-1],
                nPackagesSelected := 0, nDescendantsUpdated := 0,
                mapModifiedTx := [], failedTx := [], mi := mapTx pool, nConsecutiveFailed := 0\<rparr>"
  show "CreateNewBlock opts pool st = addPackageTxs_loop opts pool ?s0"
    by (simp add: CreateNewBlock_def addPackageTxs_def resetBlock_def UpdatePackagesForAdded_def)
qed simp_all

subsection \<open>Ancestors before descendants\<close>

lemma mempool_okD:
  assumes "mempool_ok pool" and "x \<in> set (mapTx pool)"
  shows "entry_ok pool x"
  using assms by (simp add: mempool_ok_def list_all_iff)

lemma entry_ok_not_own_ancestor:
  "entry_ok pool x \<Longrightarrow> x \<notin> set (CalculateMemPoolAncestors pool x)"
  by (simp add: entry_ok_def)

lemma entry_ok_anc:
  assumes "entry_ok pool x" and "a \<in> set (CalculateMemPoolAncestors pool x)"
  shows "a \<in> set (mapTx pool)"
    and "set (CalculateMemPoolAncestors pool a) \<subseteq> set (CalculateMemPoolAncestors pool x)"
    and "x \<in> set (CalculateDescendants pool a)"
  using assms by (auto simp: entry_ok_def list_all_iff)

lemma entry_ok_count:
  assumes ok: "mempool_ok pool" and x: "x \<in> set (mapTx pool)"
    and a: "a \<in> set (CalculateMemPoolAncestors pool x)"
  shows "GetCountWithAncestors (entry pool a) < GetCountWithAncestors (entry pool x)"
proof -
  have ex: "entry_ok pool x" using ok x by (rule mempool_okD)
  have ea: "entry_ok pool a" using ok entry_ok_anc(1) [OF ex a] by (rule mempool_okD)
  let ?A = "CalculateMemPoolAncestors pool a" and ?X = "CalculateMemPoolAncestors pool x"
  have "set ?A \<subseteq> set ?X" using entry_ok_anc(2) [OF ex a] .
  moreover have "a \<in> set ?X - set ?A" using a entry_ok_not_own_ancestor [OF ea] by simp
  ultimately have "set ?A \<subset> set ?X" by blast
  then have "card (set ?A) < card (set ?X)" by (intro psubset_card_mono) simp_all
  moreover have "distinct ?A" "distinct ?X" using ea ex by (simp_all add: entry_ok_def)
  ultimately have "length ?A < length ?X" by (simp add: distinct_card)
  then show ?thesis using ea ex by (simp add: entry_ok_def)
qed

lemma entry_ok_desc:
  assumes "entry_ok pool x" and "d \<in> set (CalculateDescendants pool x)"
  shows "d \<in> set (mapTx pool)" and "d = x \<or> x \<in> set (CalculateMemPoolAncestors pool d)"
  using assms by (auto simp: entry_ok_def list_all_iff)

lemma ancestors_first_append:
  "ancestors_first pool seen (xs @ ys) =
     (ancestors_first pool seen xs \<and> ancestors_first pool (seen @ xs) ys)"
  by (induction xs arbitrary: seen) simp_all

lemma ancestors_first_nth:
  assumes "ancestors_first pool seen xs" and "i < length xs"
    and "a \<in> set (CalculateMemPoolAncestors pool (xs ! i))"
  shows "a \<in> set seen \<or> (\<exists>j<i. xs ! j = a)"
  using assms
proof (induction xs arbitrary: seen i)
  case Nil
  then show ?case by simp
next
  case (Cons x xs)
  show ?case
  proof (cases i)
    case 0
    then show ?thesis using Cons.prems by (simp add: list_all_iff)
  next
    case (Suc k)
    then have "a \<in> set (seen @ [x]) \<or> (\<exists>j<k. xs ! j = a)"
      using Cons.IH [of "seen @ [x]" k] Cons.prems by simp
    then show ?thesis
    proof
      assume "a \<in> set (seen @ [x])"
      then show ?thesis using Suc by auto
    next
      assume "\<exists>j<k. xs ! j = a"
      then obtain j where "j < k" "xs ! j = a" by blast
      then have "Suc j < i \<and> (x # xs) ! Suc j = a" using Suc by simp
      then show ?thesis by blast
    qed
  qed
qed

lemma ancestors_first_closed:
  assumes "ancestors_first pool seen xs" and "x \<in> set xs"
  shows "set (CalculateMemPoolAncestors pool x) \<subseteq> set seen \<union> set xs"
proof
  fix a assume a: "a \<in> set (CalculateMemPoolAncestors pool x)"
  obtain i where i: "i < length xs" "xs ! i = x" using assms(2) by (auto simp: in_set_conv_nth)
  then have "a \<in> set seen \<or> (\<exists>j<i. xs ! j = a)"
    using ancestors_first_nth [OF assms(1), of i a] a by simp
  then show "a \<in> set seen \<union> set xs"
  proof
    assume "a \<in> set seen"
    then show ?thesis by simp
  next
    assume "\<exists>j<i. xs ! j = a"
    then obtain j where "j < i" "xs ! j = a" by blast
    then have "a \<in> set xs" using i(1) by (metis less_trans nth_mem)
    then show ?thesis by simp
  qed
qed

lemma fold_invariant:
  assumes "I acc" and "\<And>x a. x \<in> set xs \<Longrightarrow> I a \<Longrightarrow> I (f x a)"
  shows "I (fold f xs acc)"
  using assms by (induction xs arbitrary: acc) simp_all

lemma fold_add_fields:
  fixes pool es
  defines "addf \<equiv> (\<lambda>e s. (AddToBlock pool e s)
        \<lparr>mapModifiedTx := erase_modified e (mapModifiedTx (AddToBlock pool e s))\<rparr>)"
  shows "vtx (fold addf es st) = vtx st @ es"
    and "mapModifiedTx (fold addf es st)
           = filter (\<lambda>e. iter e \<notin> set es) (mapModifiedTx st)"
    and "mi (fold addf es st) = mi st"
    and "failedTx (fold addf es st) = failedTx st"
proof -
  show "vtx (fold addf es st) = vtx st @ es"
    by (induction es arbitrary: st) (simp_all add: addf_def AddToBlock_def)
  show "mapModifiedTx (fold addf es st)
           = filter (\<lambda>e. iter e \<notin> set es) (mapModifiedTx st)"
  proof (induction es arbitrary: st)
    case Nil
    then show ?case by simp
  next
    case (Cons a es)
    have "filter (\<lambda>e. iter e \<notin> set es) (filter (\<lambda>e. iter e \<noteq> a) (mapModifiedTx st))
        = filter (\<lambda>e. iter e \<notin> set (a # es)) (mapModifiedTx st)"
      by (auto intro: filter_cong)
    then show ?case using Cons [of "addf a st"]
      by (simp add: addf_def AddToBlock_def erase_modified_def)
  qed
  show "mi (fold addf es st) = mi st"
    by (induction es arbitrary: st) (simp_all add: addf_def AddToBlock_def)
  show "failedTx (fold addf es st) = failedTx st"
    by (induction es arbitrary: st) (simp_all add: addf_def AddToBlock_def)
qed

lemma SortForBlock_distinct: "distinct (SortForBlock pool package) = distinct package"
  by (simp add: SortForBlock_def)

lemma ancestors_first_sorted:
  fixes k :: "txiter \<Rightarrow> 'b::linorder"
  assumes "sorted (map k ys)"
    and "\<And>x a. x \<in> set ys \<Longrightarrow> a \<in> set (CalculateMemPoolAncestors pool x)
           \<Longrightarrow> a \<in> set seen \<or> (a \<in> set ys \<and> k a < k x)"
  shows "ancestors_first pool seen ys"
  using assms
proof (induction ys arbitrary: seen)
  case Nil
  then show ?case by simp
next
  case (Cons y ys)
  have le: "\<And>z. z \<in> set ys \<Longrightarrow> k y \<le> k z" using Cons.prems(1) by auto
  have first: "a \<in> set seen" if "a \<in> set (CalculateMemPoolAncestors pool y)" for a
  proof -
    have "a \<in> set seen \<or> (a \<in> set (y # ys) \<and> k a < k y)"
      using Cons.prems(2) [of y a] that by simp
    then show ?thesis using le [of a] by auto
  qed
  have rest: "a \<in> set (seen @ [y]) \<or> (a \<in> set ys \<and> k a < k x)"
    if "x \<in> set ys" "a \<in> set (CalculateMemPoolAncestors pool x)" for x a
    using Cons.prems(2) [of x a] that by auto
  have "sorted (map k ys)" using Cons.prems(1) by simp
  then have "ancestors_first pool (seen @ [y]) ys"
    using rest by (rule Cons.IH)
  then show ?case using first by (simp add: list_all_iff)
qed

lemma ancestors_first_SortForBlock:
  assumes "\<And>x a. x \<in> set package \<Longrightarrow> a \<in> set (CalculateMemPoolAncestors pool x)
           \<Longrightarrow> a \<in> set seen \<or>
               (a \<in> set package \<and>
                GetCountWithAncestors (entry pool a) < GetCountWithAncestors (entry pool x))"
  shows "ancestors_first pool seen (SortForBlock pool package)"
proof -
  let ?k = "\<lambda>it. (GetCountWithAncestors (entry pool it), it)"
  have "sorted (map ?k (SortForBlock pool package))"
    by (simp add: SortForBlock_def)
  moreover have "a \<in> set seen \<or> (a \<in> set (SortForBlock pool package) \<and> ?k a < ?k x)"
    if "x \<in> set (SortForBlock pool package)" "a \<in> set (CalculateMemPoolAncestors pool x)" for x a
    using assms [of x a] that by (auto simp: less_prod_def)
  ultimately show ?thesis by (rule ancestors_first_sorted)
qed

lemma package_of_mi [simp]: "package_of pool (st\<lparr>mi := m\<rparr>) it = package_of pool st it"
  by (simp add: package_of_def onlyUnconfirmed_def)

lemma package_of_eq:
  assumes "entry_ok pool it"
  shows "package_of pool st it
           = it # filter (\<lambda>a. a \<notin> set (inBlock st)) (CalculateMemPoolAncestors pool it)"
  using entry_ok_not_own_ancestor [OF assms]
  by (simp add: package_of_def onlyUnconfirmed_def List.insert_def)

lemma package_facts:
  assumes ok: "mempool_ok pool" and inv: "structure_inv pool st"
    and it: "it \<in> set (mapTx pool)" "it \<notin> set (inBlock st)"
  shows "distinct (package_of pool st it)"
    and "set (package_of pool st it) \<inter> set (inBlock st) = {}"
    and "set (package_of pool st it) \<subseteq> set (mapTx pool)"
    and "\<And>x a. x \<in> set (package_of pool st it) \<Longrightarrow> a \<in> set (CalculateMemPoolAncestors pool x)
           \<Longrightarrow> a \<in> set (vtx st) \<or>
               (a \<in> set (package_of pool st it) \<and>
                GetCountWithAncestors (entry pool a) < GetCountWithAncestors (entry pool x))"
proof -
  have eit: "entry_ok pool it" using ok it(1) by (rule mempool_okD)
  note eq = package_of_eq [OF eit, of st]
  have danc: "distinct (CalculateMemPoolAncestors pool it)" using eit by (simp add: entry_ok_def)
  show "distinct (package_of pool st it)"
    using danc entry_ok_not_own_ancestor [OF eit] by (simp add: eq)
  show "set (package_of pool st it) \<inter> set (inBlock st) = {}"
    using it(2) by (auto simp: eq)
  show sub: "set (package_of pool st it) \<subseteq> set (mapTx pool)"
    using it(1) entry_ok_anc(1) [OF eit] by (auto simp: eq)
  show "a \<in> set (vtx st) \<or>
               (a \<in> set (package_of pool st it) \<and>
                GetCountWithAncestors (entry pool a) < GetCountWithAncestors (entry pool x))"
    if x: "x \<in> set (package_of pool st it)" and a: "a \<in> set (CalculateMemPoolAncestors pool x)"
    for x a
  proof -
    have ex: "entry_ok pool x" using ok sub x by (auto intro: mempool_okD)
    have "a \<in> set (CalculateMemPoolAncestors pool it)"
    proof (cases "x = it")
      case True
      then show ?thesis using a by simp
    next
      case False
      then have "x \<in> set (CalculateMemPoolAncestors pool it)" using x by (simp add: eq)
      then show ?thesis using entry_ok_anc(2) [OF eit] a by blast
    qed
    moreover have "set (inBlock st) = set (vtx st)" using inv by (simp add: structure_inv_def)
    ultimately have "a \<in> set (vtx st) \<or> a \<in> set (package_of pool st it)"
      by (auto simp: eq)
    moreover have "x \<in> set (mapTx pool)" using sub x by blast
    ultimately show ?thesis using entry_ok_count [OF ok _ a] by blast
  qed
qed

lemma iter_update_for_parent_inclusion [simp]:
  "iter (update_for_parent_inclusion pool it e) = iter e"
  by (simp add: update_for_parent_inclusion_def)

lemma iter_ModifiedEntry [simp]: "iter (ModifiedEntry pool d) = d"
  by (simp add: ModifiedEntry_def)

lemma update_descendant_iters:
  assumes "e \<in> set (snd (update_descendant pool P it d acc))"
  shows "iter e \<in> iter ` set (snd acc) \<or> (iter e = d \<and> d \<notin> set P)"
  using assms by (auto simp: update_descendant_def split: if_splits)

lemma UpdatePackagesForAdded_structure:
  assumes ok: "mempool_ok pool"
    and P: "set P \<subseteq> set (mapTx pool)" "set P \<inter> set B = {}"
    and closed: "\<And>x. x \<in> set B \<Longrightarrow> set (CalculateMemPoolAncestors pool x) \<subseteq> set B"
    and ms: "\<And>e. e \<in> set ms \<Longrightarrow> iter e \<in> set (mapTx pool) \<and> iter e \<notin> set B \<union> set P"
    and e: "e \<in> set (snd (UpdatePackagesForAdded pool P ms))"
  shows "iter e \<in> set (mapTx pool) \<and> iter e \<notin> set B \<union> set P"
proof -
  let ?I = "\<lambda>acc :: int \<times> CTxMemPoolModifiedEntry list.
      \<forall>e \<in> set (snd acc). iter e \<in> set (mapTx pool) \<and> iter e \<notin> set B \<union> set P"
  have inner: "?I (update_descendant pool P it d acc)"
    if "it \<in> set P" "d \<in> set (CalculateDescendants pool it)" "?I acc" for it d acc
  proof
    fix e assume "e \<in> set (snd (update_descendant pool P it d acc))"
    then have "iter e \<in> iter ` set (snd acc) \<or> (iter e = d \<and> d \<notin> set P)"
      by (rule update_descendant_iters)
    then show "iter e \<in> set (mapTx pool) \<and> iter e \<notin> set B \<union> set P"
    proof
      assume "iter e \<in> iter ` set (snd acc)"
      then show ?thesis using that(3) by auto
    next
      assume d: "iter e = d \<and> d \<notin> set P"
      have eit: "entry_ok pool it" using ok P(1) that(1) by (auto intro: mempool_okD)
      have dm: "d \<in> set (mapTx pool)" using entry_ok_desc(1) [OF eit that(2)] .
      have "d \<noteq> it" using d that(1) by auto
      then have anc: "it \<in> set (CalculateMemPoolAncestors pool d)"
        using entry_ok_desc(2) [OF eit that(2)] by simp
      have "d \<notin> set B"
      proof
        assume "d \<in> set B"
        then have "it \<in> set B" using closed anc by blast
        then show False using that(1) P(2) by auto
      qed
      then show ?thesis using d dm by simp
    qed
  qed
  have "?I (UpdatePackagesForAdded pool P ms)"
    unfolding UpdatePackagesForAdded_def
  proof (rule fold_invariant [where I = ?I])
    show "?I (0, ms)" using ms by simp
  next
    fix it acc assume it: "it \<in> set P" and acc: "?I acc"
    show "?I (fold (update_descendant pool P it) (CalculateDescendants pool it) acc)"
      using acc inner [OF it] by (rule fold_invariant [where I = ?I])
  qed
  then show ?thesis using e by blast
qed

lemma add_package_fields:
  "vtx (add_package pool P st) = vtx st @ SortForBlock pool P"
  "mi (add_package pool P st) = mi st"
  "mapModifiedTx (add_package pool P st)
     = snd (UpdatePackagesForAdded pool P
              (filter (\<lambda>e. iter e \<notin> set P) (mapModifiedTx st)))"
  "failedTx (add_package pool P st) = failedTx st"
  by (simp_all add: add_package_def Let_def fold_add_fields)

lemma structure_inv_closed:
  assumes "structure_inv pool st" and "x \<in> set (inBlock st)"
  shows "set (CalculateMemPoolAncestors pool x) \<subseteq> set (inBlock st)"
proof -
  have "ancestors_first pool [] (vtx st)" and eq: "set (inBlock st) = set (vtx st)"
    using assms(1) by (simp_all add: structure_inv_def)
  then show ?thesis using ancestors_first_closed [of pool "[]" "vtx st" x] assms(2) by simp
qed

lemma structure_inv_add_package:
  assumes ok: "mempool_ok pool" and inv: "structure_inv pool st"
    and it: "it \<in> set (mapTx pool)" "it \<notin> set (inBlock st)"
  shows "structure_inv pool (add_package pool (package_of pool st it) st)"
proof -
  let ?P = "package_of pool st it"
  let ?st' = "add_package pool ?P st"
  note pf = package_facts [OF ok inv it]
  have eqB: "set (inBlock st) = set (vtx st)" and dv: "distinct (vtx st)"
    and sub: "\<forall>x \<in> set (vtx st). x \<in> set (mapTx pool)"
    and af: "ancestors_first pool [] (vtx st)"
    and ms: "\<forall>e \<in> set (mapModifiedTx st). iter e \<in> set (mapTx pool) \<and> iter e \<notin> set (inBlock st)"
    and mi: "\<forall>x \<in> set (mi st). x \<in> set (mapTx pool)"
    using inv unfolding structure_inv_def list_all_iff by blast+
  have d': "distinct (vtx ?st')"
    using dv pf(1,2) eqB by (auto simp: add_package_fields SortForBlock_distinct)
  have b': "set (inBlock ?st') = set (vtx ?st')"
    using eqB by (simp add: inBlock_add_package add_package_fields)
  have s': "\<forall>x \<in> set (vtx ?st'). x \<in> set (mapTx pool)"
    using sub pf(3) by (auto simp: add_package_fields)
  have "ancestors_first pool ([] @ vtx st) (SortForBlock pool ?P)"
    using pf(4) by (intro ancestors_first_SortForBlock) simp
  then have a': "ancestors_first pool [] (vtx ?st')"
    using af by (simp add: add_package_fields ancestors_first_append)
  have m': "iter e \<in> set (mapTx pool) \<and> iter e \<notin> set (inBlock ?st')"
    if "e \<in> set (mapModifiedTx ?st')" for e
  proof -
    have "iter e \<in> set (mapTx pool) \<and> iter e \<notin> set (inBlock st) \<union> set ?P"
    proof (rule UpdatePackagesForAdded_structure [OF ok pf(3) pf(2)])
      show "set (CalculateMemPoolAncestors pool x) \<subseteq> set (inBlock st)"
        if "x \<in> set (inBlock st)" for x
        using inv that by (rule structure_inv_closed)
      show "iter e \<in> set (mapTx pool) \<and> iter e \<notin> set (inBlock st) \<union> set ?P"
        if "e \<in> set (filter (\<lambda>e. iter e \<notin> set ?P) (mapModifiedTx st))" for e
        using that ms by auto
      show "e \<in> set (snd (UpdatePackagesForAdded pool ?P
                (filter (\<lambda>e. iter e \<notin> set ?P) (mapModifiedTx st))))"
        using that by (simp add: add_package_fields)
    qed
    then show ?thesis by (simp add: inBlock_add_package)
  qed
  show ?thesis
    unfolding structure_inv_def list_all_iff
    using d' b' s' a' m' mi by (simp add: add_package_fields(2))
qed

lemma addPackageTxs_step_cases:
  obtains
    (stop) "addPackageTxs_step opts pool st = Break st"
  | (skip) "mi st \<noteq> []" "addPackageTxs_step opts pool st = Continue (st\<lparr>mi := tl (mi st)\<rparr>)"
  | (failure) it modit mi' e where
      "choose_candidate opts pool st = Some (it, modit, mi')"
      "\<not> (mi st \<noteq> [] \<and> SkipMapTxEntry (hd (mi st)) st)"
      "it \<in> set (inBlock st) \<or> it \<notin> set (mapTx pool)"
      "addPackageTxs_step opts pool st = Failure e"
  | (low_fee) it modit mi' where
      "choose_candidate opts pool st = Some (it, modit, mi')"
      "addPackageTxs_step opts pool st = Break (st\<lparr>mi := mi'\<rparr>)"
  | (failed) it modit mi' n where
      "choose_candidate opts pool st = Some (it, modit, mi')"
      "addPackageTxs_step opts pool st
         = Break ((mark_failed it modit (st\<lparr>mi := mi'\<rparr>))\<lparr>nConsecutiveFailed := n\<rparr>) \<or>
       addPackageTxs_step opts pool st
         = Continue ((mark_failed it modit (st\<lparr>mi := mi'\<rparr>))\<lparr>nConsecutiveFailed := n\<rparr>) \<or>
       addPackageTxs_step opts pool st = Continue (mark_failed it modit (st\<lparr>mi := mi'\<rparr>))"
  | (added) it modit mi' where
      "choose_candidate opts pool st = Some (it, modit, mi')"
      "\<not> (mi st \<noteq> [] \<and> SkipMapTxEntry (hd (mi st)) st)"
      "it \<notin> set (inBlock st)" "it \<in> set (mapTx pool)"
      "TestPackage opts (st\<lparr>mi := mi'\<rparr>) (packageSize pool it modit)
         (packageSigOpsCost pool it modit)"
      "addPackageTxs_step opts pool st
         = Continue (add_package pool (package_of pool (st\<lparr>mi := mi'\<rparr>) it) (st\<lparr>mi := mi'\<rparr>))"
proof (cases "mi st = [] \<and> mapModifiedTx st = []")
  case True
  then show ?thesis using stop by (simp add: addPackageTxs_step_def)
next
  case ne: False
  show ?thesis
  proof (cases "mi st \<noteq> [] \<and> SkipMapTxEntry (hd (mi st)) st")
    case True
    then show ?thesis using skip ne by (simp add: addPackageTxs_step_def)
  next
    case ns: False
    show ?thesis
    proof (cases "choose_candidate opts pool st")
      case None
      then show ?thesis using stop ne ns by (simp add: addPackageTxs_step_def)
    next
      case (Some c)
      obtain it modit mi' where c: "c = (it, modit, mi')" by (cases c) auto
      note ch = Some [unfolded c]
      show ?thesis
      proof (cases "it \<in> set (inBlock st) \<or> it \<notin> set (mapTx pool)")
        case True
        show ?thesis
        proof (cases "it \<in> set (inBlock st)")
          case inb: True
          then have "addPackageTxs_step opts pool st = Failure AssertionFailed"
            using ne ns ch by (simp add: addPackageTxs_step_def)
          then show ?thesis using failure [OF ch ns True] by blast
        next
          case False
          then have "addPackageTxs_step opts pool st = Failure NotInMempool"
            using ne ns ch True by (simp add: addPackageTxs_step_def)
          then show ?thesis using failure [OF ch ns True] by blast
        qed
      next
        case ok: False
        show ?thesis
        proof (cases "packageFees pool it modit < blockMinFee opts (packageSize pool it modit)")
          case True
          then show ?thesis using low_fee [OF ch] ne ns ch ok
            by (simp add: addPackageTxs_step_def)
        next
          case fee: False
          show ?thesis
          proof (cases "TestPackage opts (st\<lparr>mi := mi'\<rparr>) (packageSize pool it modit)
                          (packageSigOpsCost pool it modit)")
            case False
            then show ?thesis using failed [OF ch, of "nConsecutiveFailed st + 1"] ne ns ch ok fee
              by (simp add: addPackageTxs_step_def)
          next
            case tp: True
            show ?thesis
            proof (cases "TestPackageTransactions pool (package_of pool (st\<lparr>mi := mi'\<rparr>) it)")
              case False
              then show ?thesis using failed [OF ch, of 0] ne ns ch ok fee tp
                by (simp add: addPackageTxs_step_def)
            next
              case True
              then show ?thesis using added [OF ch ns _ _ tp] ne ns ch ok fee tp
                by (simp add: addPackageTxs_step_def)
            qed
          qed
        qed
      qed
    qed
  qed
qed

lemma structure_inv_weaken:
  assumes "structure_inv pool st"
    and "vtx st' = vtx st" "inBlock st' = inBlock st"
    and "set (mapModifiedTx st') \<subseteq> set (mapModifiedTx st)"
    and "set (mi st') \<subseteq> set (mi st)"
  shows "structure_inv pool st'"
  using assms unfolding structure_inv_def list_all_iff by auto

lemma mark_failed_fields:
  "vtx (mark_failed it modit st) = vtx st"
  "set (mapModifiedTx (mark_failed it modit st)) \<subseteq> set (mapModifiedTx st)"
  "mi (mark_failed it modit st) = mi st"
  "nBlockWeight (mark_failed it modit st) = nBlockWeight st"
  "nBlockSigOpsCost (mark_failed it modit st) = nBlockSigOpsCost st"
  by (auto simp: mark_failed_def erase_modified_def split: option.splits)

lemma choose_candidate_mi:
  assumes "choose_candidate opts pool st = Some (it, modit, mi')"
  shows "set mi' \<subseteq> set (mi st)"
  using choose_candidate_cases [OF assms] by auto

lemma candidate_valid:
  assumes inv: "structure_inv pool st"
    and ch: "choose_candidate opts pool st = Some (it, modit, mi')"
    and ns: "\<not> (mi st \<noteq> [] \<and> SkipMapTxEntry (hd (mi st)) st)"
  shows "it \<notin> set (inBlock st)" and "it \<in> set (mapTx pool)"
proof -
  have ms: "\<forall>e \<in> set (mapModifiedTx st). iter e \<in> set (mapTx pool) \<and> iter e \<notin> set (inBlock st)"
    and mi: "\<forall>x \<in> set (mi st). x \<in> set (mapTx pool)"
    using inv unfolding structure_inv_def list_all_iff by blast+
  from choose_candidate_cases [OF ch]
  have "it \<notin> set (inBlock st) \<and> it \<in> set (mapTx pool)"
  proof
    assume "modit = None \<and> mi st = it # mi'"
    then show ?thesis using ns mi by (auto simp: SkipMapTxEntry_def)
  next
    assume "\<exists>m. modit = Some m \<and> m \<in> set (mapModifiedTx st) \<and> it = iter m \<and> mi' = mi st"
    then show ?thesis using ms by auto
  qed
  then show "it \<notin> set (inBlock st)" and "it \<in> set (mapTx pool)" by simp_all
qed

lemma result_okI:
  "r = Continue s \<Longrightarrow> P s \<Longrightarrow> result_ok P r"
  "r = Break s \<Longrightarrow> P s \<Longrightarrow> result_ok P r"
  by (simp_all add: result_ok_def)

lemma result_okD:
  "result_ok P r \<Longrightarrow> r \<noteq> Failure e"
  "result_ok P r \<Longrightarrow> r = Continue s \<Longrightarrow> P s"
  "result_ok P r \<Longrightarrow> r = Break s \<Longrightarrow> P s"
  by (auto simp: result_ok_def)

lemma structure_inv_mi:
  assumes "structure_inv pool st" and "set m \<subseteq> set (mi st)"
  shows "structure_inv pool (st\<lparr>mi := m\<rparr>)"
  using assms unfolding structure_inv_def list_all_iff by auto

lemma structure_inv_mark_failed:
  assumes "structure_inv pool st"
  shows "structure_inv pool (mark_failed it modit st)"
    and "structure_inv pool ((mark_failed it modit st)\<lparr>nConsecutiveFailed := n\<rparr>)"
proof -
  let ?f = "mark_failed it modit st"
  have sub: "set (mapModifiedTx ?f) \<subseteq> set (mapModifiedTx st)"
    by (rule mark_failed_fields(2))
  have v: "vtx ?f = vtx st" and b: "inBlock ?f = inBlock st" and m: "set (mi ?f) \<subseteq> set (mi st)"
    by (simp_all add: mark_failed_fields)
  show "structure_inv pool ?f"
    using assms v b sub m by (rule structure_inv_weaken)
  have v': "vtx (?f\<lparr>nConsecutiveFailed := n\<rparr>) = vtx st"
    and b': "inBlock (?f\<lparr>nConsecutiveFailed := n\<rparr>) = inBlock st"
    and s': "set (mapModifiedTx (?f\<lparr>nConsecutiveFailed := n\<rparr>)) \<subseteq> set (mapModifiedTx st)"
    and m': "set (mi (?f\<lparr>nConsecutiveFailed := n\<rparr>)) \<subseteq> set (mi st)"
    using sub by (simp_all add: mark_failed_fields)
  show "structure_inv pool (?f\<lparr>nConsecutiveFailed := n\<rparr>)"
    using assms v' b' s' m' by (rule structure_inv_weaken)
qed

lemma structure_inv_step:
  assumes ok: "mempool_ok pool" and inv: "structure_inv pool st"
  shows "result_ok (structure_inv pool) (addPackageTxs_step opts pool st)"
proof (cases opts pool st rule: addPackageTxs_step_cases)
  case stop
  then show ?thesis using inv by (rule result_okI(2))
next
  case skip
  have "set (tl (mi st)) \<subseteq> set (mi st)" using skip(1) by (auto dest: list.set_sel(2))
  with inv have "structure_inv pool (st\<lparr>mi := tl (mi st)\<rparr>)" by (rule structure_inv_mi)
  with skip(2) show ?thesis by (rule result_okI(1))
next
  case (failure it modit mi' e')
  have "it \<notin> set (inBlock st)" "it \<in> set (mapTx pool)"
    using candidate_valid [OF inv failure(1,2)] by simp_all
  with failure(3) show ?thesis by simp
next
  case (low_fee it modit mi')
  have "structure_inv pool (st\<lparr>mi := mi'\<rparr>)"
    using inv choose_candidate_mi [OF low_fee(1)] by (rule structure_inv_mi)
  with low_fee(2) show ?thesis by (rule result_okI(2))
next
  case (failed it modit mi' n)
  let ?f = "mark_failed it modit (st\<lparr>mi := mi'\<rparr>)"
  have inv1: "structure_inv pool (st\<lparr>mi := mi'\<rparr>)"
    using inv choose_candidate_mi [OF failed(1)] by (rule structure_inv_mi)
  note a = structure_inv_mark_failed(1) [OF inv1]
  note b = structure_inv_mark_failed(2) [OF inv1]
  from failed(2) show ?thesis
  proof (elim disjE)
    assume "addPackageTxs_step opts pool st = Break (?f\<lparr>nConsecutiveFailed := n\<rparr>)"
    then show ?thesis using b by (rule result_okI(2))
  next
    assume "addPackageTxs_step opts pool st = Continue (?f\<lparr>nConsecutiveFailed := n\<rparr>)"
    then show ?thesis using b by (rule result_okI(1))
  next
    assume "addPackageTxs_step opts pool st = Continue ?f"
    then show ?thesis using a by (rule result_okI(1))
  qed
next
  case (added it modit mi')
  let ?st1 = "st\<lparr>mi := mi'\<rparr>"
  have inv1: "structure_inv pool ?st1"
    using inv choose_candidate_mi [OF added(1)] by (rule structure_inv_mi)
  have "it \<in> set (mapTx pool)" "it \<notin> set (inBlock ?st1)" using added(3,4) by simp_all
  then have "structure_inv pool (add_package pool (package_of pool ?st1 it) ?st1)"
    using ok inv1 by (intro structure_inv_add_package)
  with added(6) show ?thesis by (rule result_okI(1))
qed

text \<open>An invariant of every pass holds when the loop ends, and the loop ends.\<close>

lemma loop_invariant:
  assumes "\<And>s. P s \<Longrightarrow> result_ok P (addPackageTxs_step opts pool s)" and "P st"
  shows "\<exists>st'. addPackageTxs_loop opts pool st = Inr st' \<and> P st'"
  using assms
proof (induction opts pool st rule: addPackageTxs_loop.induct)
  case (1 opts pool st)
  note step = "1.prems"(1) [OF "1.prems"(2)]
  show ?case
  proof (cases "addPackageTxs_step opts pool st")
    case (Continue st1)
    then have "P st1" using result_okD(2) [OF step] by simp
    then have "\<exists>st'. addPackageTxs_loop opts pool st1 = Inr st' \<and> P st'"
      using "1.IH" [OF Continue "1.prems"(1)] by blast
    then show ?thesis using Continue by (subst addPackageTxs_loop.simps) simp
  next
    case (Break st1)
    then have "P st1" using result_okD(3) [OF step] by simp
    then show ?thesis using Break by (subst addPackageTxs_loop.simps) simp
  next
    case (Failure e)
    then show ?thesis using result_okD(1) [OF step] by simp
  qed
qed

lemma structure_inv_start:
  assumes "vtx s0 = []" and "inBlock s0 = []" and "mapModifiedTx s0 = []" and "mi s0 = mapTx pool"
  shows "structure_inv pool s0"
  using assms by (simp add: structure_inv_def list_all_iff)

lemma example_pool_ok: "mempool_ok example_pool"
  by (simp add: mempool_ok_def entry_ok_def example_pool_def example_entry_def)

lemma example_run:
  "CreateNewBlock example_options example_pool idle_assembler =
     Inr \<lparr>vtx = [1, 2, 4, 3], vTxFees = [-1, 1000, 5000, 1000, 300],
        vTxSigOpsCost = [-1, 4, 8, 4, 4], inBlock = [3, 4, 2, 1], nBlockWeight = 6797,
        nBlockSigOpsCost = 420, nBlockTx = 4, nFees = 7300, mi = [],
        mapModifiedTx = [], failedTx = [], nConsecutiveFailed = 0,
        nPackagesSelected = 3, nDescendantsUpdated = 1\<rparr>"
  by code_simp

text \<open>
  Claim C6.  On a mempool whose ancestor and descendant sets are consistent, the
  package-selection loop ends without a failed assertion, and in the list of transactions
  it adds to the template no transaction occurs twice, all are entries of the mempool, and
  every in-mempool ancestor of a transaction at position \<open>i\<close> stands at a position before
  \<open>i\<close>.
\<close>

theorem C6_ancestors_precede_descendants:
  assumes "mempool_ok pool"
  shows "\<exists>st. CreateNewBlock opts pool st0 = Inr st \<and>
           distinct (vtx st) \<and> set (vtx st) \<subseteq> set (mapTx pool) \<and>
           (\<forall>i<length (vtx st). \<forall>a\<in>set (CalculateMemPoolAncestors pool (vtx st ! i)).
              \<exists>j<i. vtx st ! j = a)"
proof -
  obtain s0 where s0: "CreateNewBlock opts pool st0 = addPackageTxs_loop opts pool s0"
    "vtx s0 = []" "inBlock s0 = []" "mapModifiedTx s0 = []" "mi s0 = mapTx pool"
    by (rule CreateNewBlock_start)
  have "structure_inv pool s0" using s0(2-5) by (rule structure_inv_start)
  then have "\<exists>st. addPackageTxs_loop opts pool s0 = Inr st \<and> structure_inv pool st"
    using structure_inv_step [OF assms] by (intro loop_invariant)
  then obtain st where run: "CreateNewBlock opts pool st0 = Inr st" and inv: "structure_inv pool st"
    using s0(1) by auto
  have d: "distinct (vtx st)" and sub: "set (vtx st) \<subseteq> set (mapTx pool)"
    and af: "ancestors_first pool [] (vtx st)"
    using inv by (auto simp: structure_inv_def list_all_iff)
  have "\<exists>j<i. vtx st ! j = a"
    if "i < length (vtx st)" "a \<in> set (CalculateMemPoolAncestors pool (vtx st ! i))" for i a
    using ancestors_first_nth [OF af that] by simp
  then show ?thesis using run d sub by blast
qed

text \<open>
  C6 on a mempool of four transactions: 2 and 4 spend outputs of 1, and 3 stands alone.
  The loop takes the package of 2 first, which brings in 1 before 2; then 4, whose
  ancestor 1 is in the block by then; then 3.
\<close>

theorem C6_ancestors_precede_descendants_witness:
  "mempool_ok example_pool \<and>
   (\<exists>st. CreateNewBlock example_options example_pool idle_assembler = Inr st \<and>
      vtx st = [1, 2, 4, 3] \<and>
      CalculateMemPoolAncestors example_pool (vtx st ! 2) = [1] \<and>
      (\<exists>j<2. vtx st ! j = 1))"
proof -
  obtain st where st: "CreateNewBlock example_options example_pool idle_assembler = Inr st"
    and anc: "\<forall>i<length (vtx st). \<forall>a\<in>set (CalculateMemPoolAncestors example_pool (vtx st ! i)).
              \<exists>j<i. vtx st ! j = a"
    using C6_ancestors_precede_descendants [OF example_pool_ok, of example_options idle_assembler]
    by blast
  have v: "vtx st = [1, 2, 4, 3]" using st by (auto simp: example_run)
  have a: "CalculateMemPoolAncestors example_pool (vtx st ! 2) = [1]"
    by (simp add: v example_pool_def)
  have "\<exists>j<2. vtx st ! j = 1" using anc v a by (auto dest: spec [of _ 2])
  then show ?thesis using example_pool_ok st v a by blast
qed

subsection \<open>Weight and sigop cost within the limits\<close>

lemma uint64_id: "0 \<le> x \<Longrightarrow> x < 2 ^ 64 \<Longrightarrow> uint64 x = x"
  by (simp add: uint64_def)

lemma uint64_range: "0 \<le> uint64 x" "uint64 x < 2 ^ 64"
  by (simp_all add: uint64_def)

lemma sum_list_filter_insert:
  fixes g :: "'a \<Rightarrow> int"
  assumes "distinct xs"
  shows "sum_list (map g (filter (\<lambda>a. a \<notin> insert p S) xs))
           = sum_list (map g (filter (\<lambda>a. a \<notin> S) xs)) - (if p \<in> set xs \<and> p \<notin> S then g p else 0)"
  using assms by (induction xs) auto

lemma sum_list_filter_le:
  fixes g :: "'a \<Rightarrow> int"
  assumes "\<And>a. a \<in> set xs \<Longrightarrow> 0 \<le> g a"
  shows "sum_list (map g (filter Q xs)) \<le> sum_list (map g xs)"
    and "0 \<le> sum_list (map g (filter Q xs))"
  using assms by (induction xs) (auto simp: add_increasing)

lemma sum_list_filter_all:
  assumes "\<And>a. a \<in> set xs \<Longrightarrow> Q a"
  shows "filter Q xs = xs"
  using assms by (induction xs) auto

lemma pending_insert:
  assumes "distinct (CalculateMemPoolAncestors pool x)"
    and "p \<in> set (CalculateMemPoolAncestors pool x)" and "p \<notin> S"
  shows "pending g pool (insert p S) x = pending g pool S x - g p"
  unfolding pending_def
  using sum_list_filter_insert [OF assms(1), of g p S] assms(2,3) by simp

lemma pending_insert_other:
  assumes "p \<notin> set (CalculateMemPoolAncestors pool x)"
  shows "pending g pool (insert p S) x = pending g pool S x"
proof -
  have "filter (\<lambda>a. a \<notin> insert p S) (CalculateMemPoolAncestors pool x)
      = filter (\<lambda>a. a \<notin> S) (CalculateMemPoolAncestors pool x)"
    using assms by (intro filter_cong) auto
  then show ?thesis by (simp add: pending_def)
qed

lemma pending_full:
  assumes "\<And>a. a \<in> set (CalculateMemPoolAncestors pool x) \<Longrightarrow> a \<notin> S"
  shows "pending g pool S x = g x + sum_list (map g (CalculateMemPoolAncestors pool x))"
  using sum_list_filter_all [of "CalculateMemPoolAncestors pool x" "\<lambda>a. a \<notin> S"] assms
  by (simp add: pending_def)

lemma pending_bounds:
  assumes "0 \<le> g x" and "\<And>a. a \<in> set (CalculateMemPoolAncestors pool x) \<Longrightarrow> 0 \<le> g a"
  shows "0 \<le> pending g pool S x"
    and "pending g pool S x \<le> g x + sum_list (map g (CalculateMemPoolAncestors pool x))"
  using sum_list_filter_le [of "CalculateMemPoolAncestors pool x" g "\<lambda>a. a \<notin> S"] assms
  by (simp_all add: pending_def)

lemma sum_list_filter_mono:
  fixes g :: "'a \<Rightarrow> int"
  assumes "\<And>a. a \<in> set xs \<Longrightarrow> 0 \<le> g a" and "\<And>a. Q a \<Longrightarrow> R a"
  shows "sum_list (map g (filter Q xs)) \<le> sum_list (map g (filter R xs))"
  using assms by (induction xs) (auto simp: add_increasing)

lemma pending_mono:
  assumes "\<And>a. a \<in> set (CalculateMemPoolAncestors pool x) \<Longrightarrow> 0 \<le> g a" and "S \<subseteq> T"
  shows "pending g pool T x \<le> pending g pool S x"
proof -
  have "sum_list (map g (filter (\<lambda>a. a \<notin> T) (CalculateMemPoolAncestors pool x)))
      \<le> sum_list (map g (filter (\<lambda>a. a \<notin> S) (CalculateMemPoolAncestors pool x)))"
    using assms by (intro sum_list_filter_mono) auto
  then show ?thesis by (simp add: pending_def)
qed

text \<open>What the two aggregates of an entry of a consistent pool satisfy.\<close>

lemma aggregate_facts:
  assumes ok: "mempool_ok pool" and agg: "mempool_aggregates_ok pool"
    and x: "x \<in> set (mapTx pool)"
  shows "0 \<le> size_of pool x" and "0 \<le> sigops_of pool x"
    and "\<And>a. a \<in> set (CalculateMemPoolAncestors pool x) \<Longrightarrow> 0 \<le> size_of pool a"
    and "\<And>a. a \<in> set (CalculateMemPoolAncestors pool x) \<Longrightarrow> 0 \<le> sigops_of pool a"
    and "GetSizeWithAncestors (entry pool x)
           = size_of pool x + sum_list (map (size_of pool) (CalculateMemPoolAncestors pool x))"
    and "GetSigOpCostWithAncestors (entry pool x)
           = sigops_of pool x + sum_list (map (sigops_of pool) (CalculateMemPoolAncestors pool x))"
    and "GetSizeWithAncestors (entry pool x) < 2 ^ 61"
    and "GetSigOpCostWithAncestors (entry pool x) < 2 ^ 63"
    and "distinct (CalculateMemPoolAncestors pool x)"
proof -
  have ax: "aggregates_ok pool y" if "y \<in> set (mapTx pool)" for y
    using agg that by (simp add: mempool_aggregates_ok_def list_all_iff)
  have ex: "entry_ok pool x" using ok x by (rule mempool_okD)
  show "0 \<le> size_of pool x" "0 \<le> sigops_of pool x"
    using ax [OF x] by (simp_all add: aggregates_ok_def size_of_def sigops_of_def)
  show "0 \<le> size_of pool a" if "a \<in> set (CalculateMemPoolAncestors pool x)" for a
    using ax [OF entry_ok_anc(1) [OF ex that]] by (simp add: aggregates_ok_def size_of_def)
  show "0 \<le> sigops_of pool a" if "a \<in> set (CalculateMemPoolAncestors pool x)" for a
    using ax [OF entry_ok_anc(1) [OF ex that]] by (simp add: aggregates_ok_def sigops_of_def)
  show "GetSizeWithAncestors (entry pool x)
           = size_of pool x + sum_list (map (size_of pool) (CalculateMemPoolAncestors pool x))"
    using ax [OF x] by (simp add: aggregates_ok_def size_of_def [abs_def])
  show "GetSigOpCostWithAncestors (entry pool x)
           = sigops_of pool x + sum_list (map (sigops_of pool) (CalculateMemPoolAncestors pool x))"
    using ax [OF x] by (simp add: aggregates_ok_def sigops_of_def [abs_def])
  show "GetSizeWithAncestors (entry pool x) < 2 ^ 61"
    "GetSigOpCostWithAncestors (entry pool x) < 2 ^ 63"
    using ax [OF x] by (simp_all add: aggregates_ok_def)
  show "distinct (CalculateMemPoolAncestors pool x)" using ex by (simp add: entry_ok_def)
qed

lemma modified_ok_mono:
  assumes ok: "mempool_ok pool" and agg: "mempool_aggregates_ok pool"
    and x: "iter e \<in> set (mapTx pool)" and m: "modified_ok pool S e" and sub: "S \<subseteq> T"
  shows "modified_ok pool T e"
proof -
  note f = aggregate_facts [OF ok agg x]
  have "pending (size_of pool) pool T (iter e) \<le> pending (size_of pool) pool S (iter e)"
    using f(3) sub by (rule pending_mono)
  moreover have "pending (sigops_of pool) pool T (iter e) \<le> pending (sigops_of pool) pool S (iter e)"
    using f(4) sub by (rule pending_mono)
  ultimately show ?thesis using m by (simp add: modified_ok_def)
qed

text \<open>A new modified entry for a descendant \<open>d\<close> of the added \<open>p\<close>.\<close>

lemma modified_ok_new:
  assumes ok: "mempool_ok pool" and agg: "mempool_aggregates_ok pool"
    and d: "d \<in> set (mapTx pool)" and p: "p \<in> set (CalculateMemPoolAncestors pool d)"
  shows "modified_ok pool (insert p S) (update_for_parent_inclusion pool p (ModifiedEntry pool d))"
proof -
  note f = aggregate_facts [OF ok agg d]
  let ?anc = "CalculateMemPoolAncestors pool d"
  have step: "pending g pool (insert p S) d \<le> g d + sum_list (map g ?anc) - g p \<and>
              0 \<le> pending g pool (insert p S) d"
    if nn: "0 \<le> g d" "\<And>a. a \<in> set ?anc \<Longrightarrow> 0 \<le> g a" for g
  proof -
    have "insert p {} \<subseteq> insert p S" by blast
    with nn(2) have "pending g pool (insert p S) d \<le> pending g pool (insert p {}) d"
      by (rule pending_mono)
    also have "\<dots> = pending g pool {} d - g p"
      using f(9) p by (intro pending_insert) simp_all
    also have "pending g pool {} d = g d + sum_list (map g ?anc)"
      by (intro pending_full) simp
    finally show ?thesis using pending_bounds(1) [of g d pool "insert p S"] nn by simp
  qed
  note s1 = step [of "size_of pool", OF f(1) f(3)]
  note s2 = step [of "sigops_of pool", OF f(2) f(4)]
  have p0: "0 \<le> size_of pool p" "0 \<le> sigops_of pool p" using f(3,4) p by simp_all
  let ?v = "GetSizeWithAncestors (entry pool d) - GetTxSize (entry pool p)"
  have v: "0 \<le> ?v" "?v < 2 ^ 64" "?v \<le> GetSizeWithAncestors (entry pool d)"
    using s1 p0(1) f(5,7) by (simp_all add: size_of_def)
  have "uint64 ?v = ?v" using v(1,2) by (rule uint64_id)
  then show ?thesis
    using s1 s2 p0 f(5,6) v(3)
    by (simp add: modified_ok_def update_for_parent_inclusion_def ModifiedEntry_def
        size_of_def sigops_of_def)
qed

text \<open>An existing modified entry of a descendant of the added \<open>p\<close>.\<close>

lemma modified_ok_update:
  assumes ok: "mempool_ok pool" and agg: "mempool_aggregates_ok pool"
    and d: "iter e \<in> set (mapTx pool)" and p: "p \<in> set (CalculateMemPoolAncestors pool (iter e))"
    and pS: "p \<notin> S" and m: "modified_ok pool S e"
  shows "modified_ok pool (insert p S) (update_for_parent_inclusion pool p e)"
proof -
  note f = aggregate_facts [OF ok agg d]
  have e1: "pending (size_of pool) pool (insert p S) (iter e)
      = pending (size_of pool) pool S (iter e) - size_of pool p"
    using f(9) p pS by (rule pending_insert)
  have e2: "pending (sigops_of pool) pool (insert p S) (iter e)
      = pending (sigops_of pool) pool S (iter e) - sigops_of pool p"
    using f(9) p pS by (rule pending_insert)
  have n1: "0 \<le> pending (size_of pool) pool (insert p S) (iter e)"
    using f(1,3) by (intro pending_bounds(1)) simp_all
  have p0: "0 \<le> size_of pool p" "0 \<le> sigops_of pool p" using f(3,4) p by simp_all
  let ?v = "nSizeWithAncestors e - GetTxSize (entry pool p)"
  have v: "0 \<le> ?v" "?v < 2 ^ 64"
    using m n1 e1 p0(1) f(7) by (simp_all add: modified_ok_def size_of_def)
  have "uint64 ?v = ?v" using v by (rule uint64_id)
  then show ?thesis
    using m e1 e2 p0
    by (simp add: modified_ok_def update_for_parent_inclusion_def size_of_def sigops_of_def)
qed

lemma walk_invD:
  assumes "walk_inv pool S p D ms" and "e \<in> set ms"
  shows "iter e \<in> set (mapTx pool)"
    and "iter e \<in> D \<Longrightarrow> modified_ok pool (insert p S) e"
    and "iter e \<notin> D \<Longrightarrow> modified_ok pool S e"
  using assms by (auto simp: walk_inv_def list_all_iff)

lemma walk_invI:
  assumes "\<And>e. e \<in> set ms \<Longrightarrow> iter e \<in> set (mapTx pool)"
    and "\<And>e. e \<in> set ms \<Longrightarrow> iter e \<in> D \<Longrightarrow> modified_ok pool (insert p S) e"
    and "\<And>e. e \<in> set ms \<Longrightarrow> iter e \<notin> D \<Longrightarrow> modified_ok pool S e"
  shows "walk_inv pool S p D ms"
  using assms by (auto simp: walk_inv_def list_all_iff)

lemma update_descendant_walk:
  assumes ok: "mempool_ok pool" and agg: "mempool_aggregates_ok pool"
    and p: "p \<in> set (mapTx pool)" "p \<notin> S" "p \<in> set P"
    and d: "d \<in> set (CalculateDescendants pool p)" "d \<notin> D"
    and inv: "walk_inv pool S p D (snd acc)"
  shows "walk_inv pool S p (insert d D) (snd (update_descendant pool P p d acc))"
proof (cases "d \<in> set P")
  case True
  then have same: "update_descendant pool P p d acc = acc" by (simp add: update_descendant_def)
  show ?thesis unfolding same
  proof (rule walk_invI)
    fix e assume e: "e \<in> set (snd acc)"
    show "iter e \<in> set (mapTx pool)" using walk_invD(1) [OF inv e] .
    show "modified_ok pool (insert p S) e" if "iter e \<in> insert d D"
    proof (cases "iter e \<in> D")
      case True
      then show ?thesis using walk_invD(2) [OF inv e] by simp
    next
      case False
      then have "modified_ok pool S e" using walk_invD(3) [OF inv e] by simp
      then show ?thesis
        using modified_ok_mono [OF ok agg walk_invD(1) [OF inv e], of S "insert p S"] by blast
    qed
    show "modified_ok pool S e" if "iter e \<notin> insert d D"
      using that walk_invD(3) [OF inv e] by simp
  qed
next
  case False
  then have dp: "d \<noteq> p" using p(3) by auto
  have ep: "entry_ok pool p" using ok p(1) by (rule mempool_okD)
  have dm: "d \<in> set (mapTx pool)" using entry_ok_desc(1) [OF ep d(1)] .
  have anc: "p \<in> set (CalculateMemPoolAncestors pool d)"
    using entry_ok_desc(2) [OF ep d(1)] dp by simp
  show ?thesis
  proof (cases "list_all (\<lambda>e. iter e \<noteq> d) (snd acc)")
    case True
    then have none: "\<And>e. e \<in> set (snd acc) \<Longrightarrow> iter e \<noteq> d" by (simp add: list_all_iff)
    let ?new = "update_for_parent_inclusion pool p (ModifiedEntry pool d)"
    have eq: "snd (update_descendant pool P p d acc) = snd acc @ [?new]"
      using False True by (simp add: update_descendant_def)
    have new: "modified_ok pool (insert p S) ?new"
      using ok agg dm anc by (rule modified_ok_new)
    show ?thesis unfolding eq
    proof (rule walk_invI)
      fix e assume e: "e \<in> set (snd acc @ [?new])"
      show "iter e \<in> set (mapTx pool)"
        using e dm walk_invD(1) [OF inv] by auto
      show "modified_ok pool (insert p S) e" if "iter e \<in> insert d D"
        using e that new none walk_invD(2) [OF inv] by auto
      show "modified_ok pool S e" if "iter e \<notin> insert d D"
        using e that walk_invD(3) [OF inv] by auto
    qed
  next
    case some: False
    let ?upd = "\<lambda>e. if iter e = d then update_for_parent_inclusion pool p e else e"
    have eq: "snd (update_descendant pool P p d acc) = map ?upd (snd acc)"
      using False some by (simp add: update_descendant_def)
    show ?thesis unfolding eq
    proof (rule walk_invI)
      fix e' assume "e' \<in> set (map ?upd (snd acc))"
      then obtain e where e: "e \<in> set (snd acc)" and e': "e' = ?upd e" by auto
      have it: "iter e' = iter e" using e' by simp
      show "iter e' \<in> set (mapTx pool)" using it walk_invD(1) [OF inv e] by simp
      show "modified_ok pool (insert p S) e'" if "iter e' \<in> insert d D"
      proof (cases "iter e = d")
        case True
        then have "modified_ok pool S e" using walk_invD(3) [OF inv e] d(2) by simp
        then have "modified_ok pool (insert p S) (update_for_parent_inclusion pool p e)"
          using ok agg dm anc p(2) True by (intro modified_ok_update) simp_all
        then show ?thesis using e' True by simp
      next
        case False
        then have "iter e \<in> D" using that it by simp
        then show ?thesis using e' False walk_invD(2) [OF inv e] by simp
      qed
      show "modified_ok pool S e'" if "iter e' \<notin> insert d D"
      proof -
        have "iter e \<noteq> d" "iter e \<notin> D" using that it by simp_all
        then show ?thesis using e' walk_invD(3) [OF inv e] by simp
      qed
    qed
  qed
qed

lemma walk_descendants:
  assumes ok: "mempool_ok pool" and agg: "mempool_aggregates_ok pool"
    and p: "p \<in> set (mapTx pool)" "p \<notin> S" "p \<in> set P"
    and ds: "set ds \<subseteq> set (CalculateDescendants pool p)" "distinct ds" "set ds \<inter> D = {}"
    and inv: "walk_inv pool S p D (snd acc)"
  shows "walk_inv pool S p (D \<union> set ds) (snd (fold (update_descendant pool P p) ds acc))"
  using ds inv
proof (induction ds arbitrary: D acc)
  case Nil
  then show ?case by simp
next
  case (Cons d ds)
  have d: "d \<in> set (CalculateDescendants pool p)" "d \<notin> D" using Cons.prems(1,3) by auto
  have step: "walk_inv pool S p (insert d D) (snd (update_descendant pool P p d acc))"
    using ok agg p d Cons.prems(4) by (rule update_descendant_walk)
  have "walk_inv pool S p (insert d D \<union> set ds)
      (snd (fold (update_descendant pool P p) ds (update_descendant pool P p d acc)))"
    using Cons.prems(1,2,3) step by (intro Cons.IH) auto
  then show ?case by simp
qed

lemma walk_one_added:
  assumes ok: "mempool_ok pool" and agg: "mempool_aggregates_ok pool"
    and p: "p \<in> set (mapTx pool)" "p \<notin> S" "p \<in> set P"
    and inv: "all_modified_ok pool S (snd acc)"
  shows "all_modified_ok pool (insert p S)
           (snd (fold (update_descendant pool P p) (CalculateDescendants pool p) acc))"
proof -
  let ?ds = "CalculateDescendants pool p"
  have "distinct ?ds" using mempool_okD [OF ok p(1)] by (simp add: entry_ok_def)
  moreover have "walk_inv pool S p {} (snd acc)"
    using inv by (simp add: walk_inv_def all_modified_ok_def)
  ultimately have w: "walk_inv pool S p ({} \<union> set ?ds) (snd (fold (update_descendant pool P p) ?ds acc))"
    using ok agg p by (intro walk_descendants) simp_all
  show ?thesis unfolding all_modified_ok_def list_all_iff
  proof (intro ballI conjI)
    fix e assume e: "e \<in> set (snd (fold (update_descendant pool P p) ?ds acc))"
    show m: "iter e \<in> set (mapTx pool)" using walk_invD(1) [OF w e] .
    show "modified_ok pool (insert p S) e"
    proof (cases "iter e \<in> set ?ds")
      case True
      then show ?thesis using walk_invD(2) [OF w e] by simp
    next
      case False
      then have "modified_ok pool S e" using walk_invD(3) [OF w e] by simp
      then show ?thesis using modified_ok_mono [OF ok agg m, of S "insert p S"] by blast
    qed
  qed
qed

lemma walk_all_added:
  assumes ok: "mempool_ok pool" and agg: "mempool_aggregates_ok pool"
    and ps: "set ps \<subseteq> set (mapTx pool)" "set ps \<inter> S = {}" "set ps \<subseteq> set P" "distinct ps"
    and inv: "all_modified_ok pool S (snd acc)"
  shows "all_modified_ok pool (S \<union> set ps)
    (snd (fold (\<lambda>it acc. fold (update_descendant pool P it) (CalculateDescendants pool it) acc)
            ps acc))"
  using ps inv
proof (induction ps arbitrary: S acc)
  case Nil
  then show ?case by simp
next
  case (Cons p ps)
  have p: "p \<in> set (mapTx pool)" "p \<notin> S" "p \<in> set P" using Cons.prems(1,2,3) by auto
  let ?acc = "fold (update_descendant pool P p) (CalculateDescendants pool p) acc"
  have step: "all_modified_ok pool (insert p S) (snd ?acc)"
    using ok agg p Cons.prems(5) by (rule walk_one_added)
  have "all_modified_ok pool (insert p S \<union> set ps)
    (snd (fold (\<lambda>it acc. fold (update_descendant pool P it) (CalculateDescendants pool it) acc)
            ps ?acc))"
    using Cons.prems(1,2,3,4) step by (intro Cons.IH) auto
  then show ?case by simp
qed

lemma UpdatePackagesForAdded_modified_ok:
  assumes ok: "mempool_ok pool" and agg: "mempool_aggregates_ok pool"
    and P: "set P \<subseteq> set (mapTx pool)" "set P \<inter> S = {}" "distinct P"
    and inv: "all_modified_ok pool S ms"
  shows "all_modified_ok pool (S \<union> set P) (snd (UpdatePackagesForAdded pool P ms))"
  unfolding UpdatePackagesForAdded_def
  using ok agg P(1,2) _ P(3) by (rule walk_all_added) (simp_all add: inv)

lemma update_descendant_keeps:
  "iter ` set (snd acc) \<subseteq> iter ` set (snd (update_descendant pool P p d acc))"
proof (cases "d \<in> set P \<or> list_all (\<lambda>e. iter e \<noteq> d) (snd acc)")
  case True
  then show ?thesis by (auto simp: update_descendant_def)
next
  case False
  let ?upd = "\<lambda>e. if iter e = d then update_for_parent_inclusion pool p e else e"
  have eq: "snd (update_descendant pool P p d acc) = map ?upd (snd acc)"
    using False by (simp add: update_descendant_def)
  have a: "(\<lambda>e. iter (?upd e)) ` set (snd acc) = iter ` set (snd acc)"
    by (intro image_cong) simp_all
  have b: "iter ` set (map ?upd (snd acc)) = (\<lambda>e. iter (?upd e)) ` set (snd acc)"
    by (simp only: set_map image_image)
  have "iter ` set (map ?upd (snd acc)) = iter ` set (snd acc)"
    using b a by (rule trans)
  then show ?thesis unfolding eq by (simp only: subset_refl)
qed

lemma update_descendant_adds:
  assumes "d \<notin> set P"
  shows "d \<in> iter ` set (snd (update_descendant pool P p d acc))"
proof (cases "list_all (\<lambda>e. iter e \<noteq> d) (snd acc)")
  case True
  then show ?thesis using assms by (simp add: update_descendant_def)
next
  case False
  then obtain e where "e \<in> set (snd acc)" "iter e = d" by (auto simp: list_all_iff)
  then have "d \<in> iter ` set (snd acc)" by force
  then show ?thesis using update_descendant_keeps [of acc pool P p d] by blast
qed

lemma walk_keeps:
  "iter ` set (snd acc) \<subseteq> iter ` set (snd (fold (update_descendant pool P p) ds acc))"
proof (induction ds arbitrary: acc)
  case Nil
  then show ?case by simp
next
  case (Cons d ds)
  have "iter ` set (snd acc) \<subseteq> iter ` set (snd (update_descendant pool P p d acc))"
    by (rule update_descendant_keeps)
  also have "\<dots> \<subseteq> iter ` set (snd (fold (update_descendant pool P p) ds
      (update_descendant pool P p d acc)))"
    by (rule Cons.IH)
  finally show ?case by simp
qed

lemma walk_adds:
  assumes "d \<in> set ds" and "d \<notin> set P"
  shows "d \<in> iter ` set (snd (fold (update_descendant pool P p) ds acc))"
  using assms(1)
proof (induction ds arbitrary: acc)
  case Nil
  then show ?case by simp
next
  case (Cons c ds)
  show ?case
  proof (cases "d = c")
    case True
    then have "d \<in> iter ` set (snd (update_descendant pool P p c acc))"
      using update_descendant_adds [OF assms(2)] by simp
    moreover have "iter ` set (snd (update_descendant pool P p c acc))
        \<subseteq> iter ` set (snd (fold (update_descendant pool P p) ds (update_descendant pool P p c acc)))"
      by (rule walk_keeps)
    ultimately have "d \<in> iter ` set (snd (fold (update_descendant pool P p) ds
        (update_descendant pool P p c acc)))"
      by (rule rev_subsetD)
    then show ?thesis by simp
  next
    case False
    then have "d \<in> set ds" using Cons.prems by simp
    then show ?thesis using Cons.IH by simp
  qed
qed

lemma UpdatePackagesForAdded_keeps:
  "iter ` set ms \<subseteq> iter ` set (snd (UpdatePackagesForAdded pool P ms))"
proof -
  have "iter ` set (snd acc) \<subseteq> iter ` set (snd (fold
      (\<lambda>it acc. fold (update_descendant pool P it) (CalculateDescendants pool it) acc) ps acc))"
    for ps acc
  proof (induction ps arbitrary: acc)
    case Nil
    then show ?case by simp
  next
    case (Cons p ps)
    have "iter ` set (snd acc) \<subseteq> iter ` set (snd
        (fold (update_descendant pool P p) (CalculateDescendants pool p) acc))"
      by (rule walk_keeps)
    also have "\<dots> \<subseteq> iter ` set (snd (fold
        (\<lambda>it acc. fold (update_descendant pool P it) (CalculateDescendants pool it) acc) ps
        (fold (update_descendant pool P p) (CalculateDescendants pool p) acc)))"
      by (rule Cons.IH)
    finally show ?case by simp
  qed
  from this [of "(0, ms)" P] show ?thesis by (simp add: UpdatePackagesForAdded_def)
qed

lemma UpdatePackagesForAdded_adds:
  assumes "p \<in> set P" and "d \<in> set (CalculateDescendants pool p)" and "d \<notin> set P"
  shows "d \<in> iter ` set (snd (UpdatePackagesForAdded pool P ms))"
proof -
  let ?f = "\<lambda>it acc. fold (update_descendant pool P it) (CalculateDescendants pool it) acc"
  have keeps: "iter ` set (snd acc) \<subseteq> iter ` set (snd (fold ?f ps acc))" for ps acc
  proof (induction ps arbitrary: acc)
    case Nil
    then show ?case by simp
  next
    case (Cons q ps)
    have "iter ` set (snd acc) \<subseteq> iter ` set (snd (?f q acc))"
      by (rule walk_keeps)
    also have "\<dots> \<subseteq> iter ` set (snd (fold ?f ps (?f q acc)))"
      by (rule Cons.IH)
    finally show ?case by simp
  qed
  have "p \<in> set ps \<Longrightarrow> d \<in> iter ` set (snd (fold ?f ps acc))" for ps acc
  proof (induction ps arbitrary: acc)
    case Nil
    then show ?case by simp
  next
    case (Cons q ps)
    show ?case
    proof (cases "p = q")
      case True
      then have "d \<in> iter ` set (snd (?f q acc))"
        using walk_adds [OF assms(2,3)] by simp
      moreover have "iter ` set (snd (?f q acc)) \<subseteq> iter ` set (snd (fold ?f ps (?f q acc)))"
        by (rule keeps)
      ultimately have "d \<in> iter ` set (snd (fold ?f ps (?f q acc)))" by (rule rev_subsetD)
      then show ?thesis by simp
    next
      case False
      then have "p \<in> set ps" using Cons.prems by simp
      then show ?thesis using Cons.IH by simp
    qed
  qed
  from this [OF assms(1), of "(0, ms)"] show ?thesis by (simp add: UpdatePackagesForAdded_def)
qed

text \<open>The constructor leaves \<open>nBlockMaxWeight\<close> within these limits.\<close>

lemma clamp_nBlockMaxWeight_range:
  assumes "limit < 2 ^ 32"
  shows "4000 \<le> clamp_nBlockMaxWeight limit n" and "clamp_nBlockMaxWeight limit n < 2 ^ 32"
proof -
  let ?v = "max 4000 (min limit n)"
  have v: "4000 \<le> ?v" "?v < 2 ^ 32" using assms by simp_all
  then have "uint32 ?v = ?v" by (simp add: uint32_def)
  then show "4000 \<le> clamp_nBlockMaxWeight limit n" and "clamp_nBlockMaxWeight limit n < 2 ^ 32"
    using v by (simp_all add: clamp_nBlockMaxWeight_def)
qed

lemma sum_list_insort_key:
  fixes g :: "'a \<Rightarrow> int"
  shows "sum_list (map g (insort_key f x xs)) = g x + sum_list (map g xs)"
  by (induction xs) simp_all

lemma sum_list_sort_key:
  fixes g :: "'a \<Rightarrow> int"
  shows "sum_list (map g (sort_key f xs)) = sum_list (map g xs)"
  by (induction xs) (simp_all add: sort_key_def sum_list_insort_key)

lemma SortForBlock_sum:
  fixes g :: "txiter \<Rightarrow> int"
  shows "sum_list (map g (SortForBlock pool package)) = sum_list (map g package)"
  by (simp add: SortForBlock_def sum_list_sort_key)

lemma sum_list_nonneg_int:
  fixes g :: "'a \<Rightarrow> int"
  assumes "\<And>x. x \<in> set xs \<Longrightarrow> 0 \<le> g x"
  shows "0 \<le> sum_list (map g xs)"
  using assms by (induction xs) simp_all

lemma sum_list_le_int:
  fixes g h :: "'a \<Rightarrow> int"
  assumes "\<And>x. x \<in> set xs \<Longrightarrow> g x \<le> h x"
  shows "sum_list (map g xs) \<le> sum_list (map h xs)"
  using assms by (induction xs) (simp_all add: add_mono)

text \<open>The unsigned sums of \<open>AddToBlock\<close> do not wrap while the totals stay below \<open>2^64\<close>.\<close>

lemma fold_add_sums:
  fixes pool es
  defines "addf \<equiv> (\<lambda>e s. (AddToBlock pool e s)
        \<lparr>mapModifiedTx := erase_modified e (mapModifiedTx (AddToBlock pool e s))\<rparr>)"
  assumes "\<And>x. x \<in> set es \<Longrightarrow> 0 \<le> GetTxWeight (entry pool x) \<and> 0 \<le> GetSigOpCost (entry pool x)"
    and "0 \<le> nBlockWeight st"
    and "nBlockWeight st + sum_list (map (\<lambda>x. GetTxWeight (entry pool x)) es) < 2 ^ 64"
    and "0 \<le> nBlockSigOpsCost st"
    and "nBlockSigOpsCost st + sum_list (map (\<lambda>x. GetSigOpCost (entry pool x)) es) < 2 ^ 64"
  shows "nBlockWeight (fold addf es st)
           = nBlockWeight st + sum_list (map (\<lambda>x. GetTxWeight (entry pool x)) es) \<and>
         nBlockSigOpsCost (fold addf es st)
           = nBlockSigOpsCost st + sum_list (map (\<lambda>x. GetSigOpCost (entry pool x)) es)"
  using assms(2-)
proof (induction es arbitrary: st)
  case Nil
  then show ?case by simp
next
  case (Cons a es)
  let ?w = "\<lambda>x. GetTxWeight (entry pool x)" and ?s = "\<lambda>x. GetSigOpCost (entry pool x)"
  have nn: "0 \<le> ?w a" "0 \<le> ?s a" using Cons.prems(1) [of a] by simp_all
  have rest: "0 \<le> sum_list (map ?w es)" "0 \<le> sum_list (map ?s es)"
    using Cons.prems(1) by (simp_all add: sum_list_nonneg_int)
  have w: "uint64 (nBlockWeight st + ?w a) = nBlockWeight st + ?w a"
    using nn(1) rest(1) Cons.prems(2,3) by (intro uint64_id) simp_all
  have s: "uint64 (nBlockSigOpsCost st + ?s a) = nBlockSigOpsCost st + ?s a"
    using nn(2) rest(2) Cons.prems(4,5) by (intro uint64_id) simp_all
  have f1: "nBlockWeight (addf a st) = nBlockWeight st + ?w a"
    and f2: "nBlockSigOpsCost (addf a st) = nBlockSigOpsCost st + ?s a"
    using w s by (simp_all add: addf_def AddToBlock_def)
  have "nBlockWeight (fold addf es (addf a st))
           = nBlockWeight (addf a st) + sum_list (map ?w es) \<and>
        nBlockSigOpsCost (fold addf es (addf a st))
           = nBlockSigOpsCost (addf a st) + sum_list (map ?s es)"
  proof (rule Cons.IH)
    show "0 \<le> ?w x \<and> 0 \<le> ?s x" if "x \<in> set es" for x using Cons.prems(1) [of x] that by simp
    show "0 \<le> nBlockWeight (addf a st)" using f1 nn(1) Cons.prems(2) by simp
    show "nBlockWeight (addf a st) + sum_list (map ?w es) < 2 ^ 64"
      using f1 Cons.prems(3) by simp
    show "0 \<le> nBlockSigOpsCost (addf a st)" using f2 nn(2) Cons.prems(4) by simp
    show "nBlockSigOpsCost (addf a st) + sum_list (map ?s es) < 2 ^ 64"
      using f2 Cons.prems(5) by simp
  qed
  then show ?case using f1 f2 by simp
qed

lemma add_package_sums:
  "nBlockWeight (add_package pool P st)
     = nBlockWeight (fold (\<lambda>e s. (AddToBlock pool e s)
        \<lparr>mapModifiedTx := erase_modified e (mapModifiedTx (AddToBlock pool e s))\<rparr>)
        (SortForBlock pool P) st)"
  "nBlockSigOpsCost (add_package pool P st)
     = nBlockSigOpsCost (fold (\<lambda>e s. (AddToBlock pool e s)
        \<lparr>mapModifiedTx := erase_modified e (mapModifiedTx (AddToBlock pool e s))\<rparr>)
        (SortForBlock pool P) st)"
  by (simp_all add: add_package_def Let_def)

text \<open>\<open>TestPackage\<close> on a package whose numbers are in range.\<close>

lemma TestPackage_bounds:
  assumes "TestPackage opts st ps so" and "options_ok opts"
    and "0 \<le> ps" "ps < 2 ^ 61" "0 \<le> so" "so < 2 ^ 63"
    and "0 \<le> nBlockWeight st" "nBlockWeight st \<le> nBlockMaxWeight opts"
    and "0 \<le> nBlockSigOpsCost st" "nBlockSigOpsCost st \<le> MAX_BLOCK_SIGOPS_COST opts"
  shows "nBlockWeight st + 4 * ps < nBlockMaxWeight opts"
    and "nBlockSigOpsCost st + so < MAX_BLOCK_SIGOPS_COST opts"
proof -
  have oo: "nBlockMaxWeight opts < 2 ^ 32" "0 \<le> MAX_BLOCK_SIGOPS_COST opts"
    "MAX_BLOCK_SIGOPS_COST opts < 2 ^ 63"
    using assms(2) by (simp_all add: options_ok_def)
  have a: "uint64 (4 * ps) = 4 * ps" using assms(3,4) by (intro uint64_id) simp_all
  have b: "uint64 (nBlockWeight st + 4 * ps) = nBlockWeight st + 4 * ps"
    using assms(3,4,7,8) oo(1) by (intro uint64_id) simp_all
  have c: "uint64 (nBlockSigOpsCost st + so) = nBlockSigOpsCost st + so"
    using assms(5,6,9,10) oo(3) by (intro uint64_id) simp_all
  have d: "uint64 (MAX_BLOCK_SIGOPS_COST opts) = MAX_BLOCK_SIGOPS_COST opts"
    using oo(2,3) by (intro uint64_id) simp_all
  show "nBlockWeight st + 4 * ps < nBlockMaxWeight opts"
    and "nBlockSigOpsCost st + so < MAX_BLOCK_SIGOPS_COST opts"
    using assms(1) a b c d
    by (simp_all add: TestPackage_def WITNESS_SCALE_FACTOR_def split: if_splits)
qed

lemma budget_invD:
  assumes "budget_inv opts pool st"
  shows "nBlockWeight st = 4000 + sum_list (map (\<lambda>x. GetTxWeight (entry pool x)) (vtx st))"
    and "nBlockSigOpsCost st = 400 + sum_list (map (\<lambda>x. GetSigOpCost (entry pool x)) (vtx st))"
    and "nBlockWeight st \<le> nBlockMaxWeight opts"
    and "nBlockSigOpsCost st \<le> MAX_BLOCK_SIGOPS_COST opts"
    and "\<And>e. e \<in> set (mapModifiedTx st) \<Longrightarrow> modified_ok pool (set (inBlock st)) e"
    and "\<And>x a. x \<in> set (mapTx pool) \<Longrightarrow> x \<notin> set (inBlock st) \<Longrightarrow>
           x \<notin> iter ` set (mapModifiedTx st) \<Longrightarrow> x \<notin> set (failedTx st) \<Longrightarrow>
           a \<in> set (CalculateMemPoolAncestors pool x) \<Longrightarrow> a \<notin> set (inBlock st)"
  using assms unfolding budget_inv_def list_all_iff by blast+

lemma budget_invI:
  assumes "nBlockWeight st = 4000 + sum_list (map (\<lambda>x. GetTxWeight (entry pool x)) (vtx st))"
    and "nBlockSigOpsCost st = 400 + sum_list (map (\<lambda>x. GetSigOpCost (entry pool x)) (vtx st))"
    and "nBlockWeight st \<le> nBlockMaxWeight opts"
    and "nBlockSigOpsCost st \<le> MAX_BLOCK_SIGOPS_COST opts"
    and "\<And>e. e \<in> set (mapModifiedTx st) \<Longrightarrow> modified_ok pool (set (inBlock st)) e"
    and "\<And>x. x \<in> set (mapTx pool) \<Longrightarrow> x \<notin> set (inBlock st) \<Longrightarrow>
           x \<notin> iter ` set (mapModifiedTx st) \<Longrightarrow> x \<notin> set (failedTx st) \<Longrightarrow>
           (\<forall>a \<in> set (CalculateMemPoolAncestors pool x). a \<notin> set (inBlock st))"
  shows "budget_inv opts pool st"
  unfolding budget_inv_def list_all_iff using assms by blast

lemma budget_inv_same:
  assumes "budget_inv opts pool st"
    and "vtx st' = vtx st" "inBlock st' = inBlock st" "nBlockWeight st' = nBlockWeight st"
    and "nBlockSigOpsCost st' = nBlockSigOpsCost st" "mapModifiedTx st' = mapModifiedTx st"
    and "failedTx st' = failedTx st"
  shows "budget_inv opts pool st'"
  using assms by (simp add: budget_inv_def)

lemma budget_inv_mark_failed:
  assumes binv: "budget_inv opts pool st" and it: "\<And>m. modit = Some m \<Longrightarrow> it = iter m"
  shows "budget_inv opts pool (mark_failed it modit st)"
proof (cases modit)
  case None
  then show ?thesis using binv by (simp add: mark_failed_def)
next
  case (Some m)
  let ?st' = "st\<lparr>mapModifiedTx := erase_modified (iter m) (mapModifiedTx st),
                  failedTx := List.insert it (failedTx st)\<rparr>"
  have eq: "mark_failed it modit st = ?st'" using Some by (simp add: mark_failed_def)
  note b = budget_invD [OF binv]
  have "budget_inv opts pool ?st'"
  proof (rule budget_invI)
    show "modified_ok pool (set (inBlock ?st')) e" if "e \<in> set (mapModifiedTx ?st')" for e
      using that b(5) [of e] by (simp add: erase_modified_def)
    show "\<forall>a \<in> set (CalculateMemPoolAncestors pool x). a \<notin> set (inBlock ?st')"
      if x: "x \<in> set (mapTx pool)" "x \<notin> set (inBlock ?st')"
        "x \<notin> iter ` set (mapModifiedTx ?st')" "x \<notin> set (failedTx ?st')" for x
    proof -
      have ne: "x \<noteq> iter m" using x(4) it [OF Some] by simp
      have "x \<notin> iter ` set (mapModifiedTx st)"
      proof
        assume "x \<in> iter ` set (mapModifiedTx st)"
        then obtain e where "e \<in> set (mapModifiedTx st)" "iter e = x" by auto
        then have "e \<in> set (mapModifiedTx ?st')" using ne by (simp add: erase_modified_def)
        then show False using x(3) \<open>iter e = x\<close> by force
      qed
      then show ?thesis using b(6) [of x] x(1,2,4) by simp
    qed
  qed (use b in simp_all)
  then show ?thesis by (simp only: eq)
qed

lemma budget_inv_start:
  assumes "options_ok opts"
    and "vtx s0 = []" and "inBlock s0 = []" and "mapModifiedTx s0 = []"
    and "nBlockWeight s0 = 4000" and "nBlockSigOpsCost s0 = 400"
  shows "budget_inv opts pool s0"
  using assms by (simp add: budget_inv_def options_ok_def list_all_iff)

text \<open>The sizes of a package add up to what is pending for its candidate.\<close>

lemma package_sums:
  assumes "entry_ok pool it"
  shows "sum_list (map g (package_of pool st it)) = pending g pool (set (inBlock st)) it"
  by (simp add: package_of_eq [OF assms] pending_def)

text \<open>The numbers that \<open>TestPackage\<close> gets for a candidate cover its package.\<close>

lemma candidate_budget:
  assumes ok: "mempool_ok pool" and agg: "mempool_aggregates_ok pool"
    and sinv: "structure_inv pool st" and binv: "budget_inv opts pool st"
    and ch: "choose_candidate opts pool st = Some (it, modit, mi')"
    and ns: "\<not> (mi st \<noteq> [] \<and> SkipMapTxEntry (hd (mi st)) st)"
  shows "pending (size_of pool) pool (set (inBlock st)) it \<le> packageSize pool it modit"
    and "packageSize pool it modit < 2 ^ 61"
    and "pending (sigops_of pool) pool (set (inBlock st)) it \<le> packageSigOpsCost pool it modit"
    and "packageSigOpsCost pool it modit < 2 ^ 63"
proof -
  have itm: "it \<in> set (mapTx pool)" using candidate_valid(2) [OF sinv ch ns] .
  note f = aggregate_facts [OF ok agg itm]
  note b = budget_invD [OF binv]
  from choose_candidate_cases [OF ch]
  have "pending (size_of pool) pool (set (inBlock st)) it \<le> packageSize pool it modit \<and>
        packageSize pool it modit < 2 ^ 61 \<and>
        pending (sigops_of pool) pool (set (inBlock st)) it \<le> packageSigOpsCost pool it modit \<and>
        packageSigOpsCost pool it modit < 2 ^ 63"
  proof
    assume c: "modit = None \<and> mi st = it # mi'"
    then have "\<not> SkipMapTxEntry it st" using ns by simp
    then have "it \<notin> set (inBlock st)" "it \<notin> iter ` set (mapModifiedTx st)"
      "it \<notin> set (failedTx st)"
      by (auto simp: SkipMapTxEntry_def list_all_iff)
    then have free: "\<And>a. a \<in> set (CalculateMemPoolAncestors pool it) \<Longrightarrow> a \<notin> set (inBlock st)"
      using b(6) [OF itm] by blast
    have "pending (size_of pool) pool (set (inBlock st)) it = GetSizeWithAncestors (entry pool it)"
      using pending_full [of pool it "set (inBlock st)" "size_of pool"] free f(5) by simp
    moreover have "pending (sigops_of pool) pool (set (inBlock st)) it
        = GetSigOpCostWithAncestors (entry pool it)"
      using pending_full [of pool it "set (inBlock st)" "sigops_of pool"] free f(6) by simp
    ultimately show ?thesis
      using c f(7,8) by (simp add: packageSize_def packageSigOpsCost_def)
  next
    assume "\<exists>m. modit = Some m \<and> m \<in> set (mapModifiedTx st) \<and> it = iter m \<and> mi' = mi st"
    then obtain m where m: "modit = Some m" "m \<in> set (mapModifiedTx st)" "it = iter m" by blast
    have "modified_ok pool (set (inBlock st)) m" using b(5) [OF m(2)] .
    then show ?thesis
      using m(1,3) f(7,8) by (simp add: modified_ok_def packageSize_def packageSigOpsCost_def)
  qed
  then show "pending (size_of pool) pool (set (inBlock st)) it \<le> packageSize pool it modit"
    and "packageSize pool it modit < 2 ^ 61"
    and "pending (sigops_of pool) pool (set (inBlock st)) it \<le> packageSigOpsCost pool it modit"
    and "packageSigOpsCost pool it modit < 2 ^ 63"
    by simp_all
qed

lemma entry_weights:
  assumes "mempool_aggregates_ok pool" and "x \<in> set (mapTx pool)"
  shows "0 \<le> GetTxWeight (entry pool x)" and "0 \<le> GetSigOpCost (entry pool x)"
    and "GetTxWeight (entry pool x) \<le> 4 * size_of pool x"
  using assms
  by (simp_all add: mempool_aggregates_ok_def list_all_iff aggregates_ok_def size_of_def
      WITNESS_SCALE_FACTOR_def)

lemma budget_inv_add_package:
  assumes ok: "mempool_ok pool" and agg: "mempool_aggregates_ok pool" and oo: "options_ok opts"
    and sinv: "structure_inv pool st" and binv: "budget_inv opts pool st"
    and it: "it \<in> set (mapTx pool)" "it \<notin> set (inBlock st)"
    and tw: "nBlockWeight st + 4 * pending (size_of pool) pool (set (inBlock st)) it
               < nBlockMaxWeight opts"
    and ts: "nBlockSigOpsCost st + pending (sigops_of pool) pool (set (inBlock st)) it
               < MAX_BLOCK_SIGOPS_COST opts"
  shows "budget_inv opts pool (add_package pool (package_of pool st it) st)"
proof -
  let ?P = "package_of pool st it"
  let ?st' = "add_package pool ?P st"
  let ?B = "set (inBlock st)"
  let ?w = "\<lambda>x. GetTxWeight (entry pool x)" and ?s = "\<lambda>x. GetSigOpCost (entry pool x)"
  note pf = package_facts [OF ok sinv it]
  note b = budget_invD [OF binv]
  have eit: "entry_ok pool it" using ok it(1) by (rule mempool_okD)
  have vsub: "\<And>x. x \<in> set (vtx st) \<Longrightarrow> x \<in> set (mapTx pool)"
    and msub: "\<And>e. e \<in> set (mapModifiedTx st) \<Longrightarrow> iter e \<in> set (mapTx pool)"
    using sinv unfolding structure_inv_def list_all_iff by blast+
  have inB: "set (inBlock ?st') = ?B \<union> set ?P" by (rule inBlock_add_package)
  \<comment> \<open>the sums\<close>
  have Pw: "\<And>x. x \<in> set ?P \<Longrightarrow> 0 \<le> ?w x \<and> 0 \<le> ?s x"
    using entry_weights(1,2) [OF agg] pf(3) by blast
  have sumw: "sum_list (map ?w ?P) \<le> 4 * pending (size_of pool) pool ?B it"
  proof -
    have "sum_list (map ?w ?P) \<le> sum_list (map (\<lambda>x. 4 * size_of pool x) ?P)"
      using entry_weights(3) [OF agg] pf(3) by (intro sum_list_le_int) blast
    also have "\<dots> = 4 * sum_list (map (size_of pool) ?P)"
      by (simp add: sum_list_const_mult)
    finally show ?thesis by (simp add: package_sums [OF eit])
  qed
  have sums: "sum_list (map ?s ?P) = pending (sigops_of pool) pool ?B it"
    using package_sums [OF eit, of "sigops_of pool" st] by (simp add: sigops_of_def [abs_def])
  have w0: "0 \<le> nBlockWeight st"
    using b(1) sum_list_nonneg_int [of "vtx st" ?w] entry_weights(1) [OF agg] vsub by simp
  have s0: "0 \<le> nBlockSigOpsCost st"
    using b(2) sum_list_nonneg_int [of "vtx st" ?s] entry_weights(2) [OF agg] vsub by simp
  have lim: "nBlockMaxWeight opts < 2 ^ 32" "MAX_BLOCK_SIGOPS_COST opts < 2 ^ 63"
    using oo by (simp_all add: options_ok_def)
  have srt: "sum_list (map ?w (SortForBlock pool ?P)) = sum_list (map ?w ?P)"
    "sum_list (map ?s (SortForBlock pool ?P)) = sum_list (map ?s ?P)"
    by (rule SortForBlock_sum)+
  have "nBlockWeight ?st' = nBlockWeight st + sum_list (map ?w (SortForBlock pool ?P)) \<and>
        nBlockSigOpsCost ?st' = nBlockSigOpsCost st + sum_list (map ?s (SortForBlock pool ?P))"
    unfolding add_package_sums
  proof (rule fold_add_sums)
    show "0 \<le> ?w x \<and> 0 \<le> ?s x" if "x \<in> set (SortForBlock pool ?P)" for x
      using Pw that by simp
    show "0 \<le> nBlockWeight st" by (rule w0)
    show "0 \<le> nBlockSigOpsCost st" by (rule s0)
    show "nBlockWeight st + sum_list (map ?w (SortForBlock pool ?P)) < 2 ^ 64"
      using srt(1) sumw tw lim(1) by simp
    show "nBlockSigOpsCost st + sum_list (map ?s (SortForBlock pool ?P)) < 2 ^ 64"
      using srt(2) sums ts lim(2) by simp
  qed
  then have nw: "nBlockWeight ?st' = nBlockWeight st + sum_list (map ?w ?P)"
    and nsg: "nBlockSigOpsCost ?st' = nBlockSigOpsCost st + sum_list (map ?s ?P)"
    using srt by simp_all
  \<comment> \<open>the modified entries\<close>
  let ?ms0 = "filter (\<lambda>e. iter e \<notin> set ?P) (mapModifiedTx st)"
  have ms': "mapModifiedTx ?st' = snd (UpdatePackagesForAdded pool ?P ?ms0)"
    by (rule add_package_fields(3))
  have "all_modified_ok pool ?B ?ms0"
    using b(5) msub by (simp add: all_modified_ok_def list_all_iff)
  then have amo: "all_modified_ok pool (?B \<union> set ?P) (mapModifiedTx ?st')"
    unfolding ms' using ok agg pf(3) pf(2) pf(1)
    by (intro UpdatePackagesForAdded_modified_ok) simp_all
  show ?thesis
  proof (rule budget_invI)
    show "nBlockWeight ?st' = 4000 + sum_list (map ?w (vtx ?st'))"
      using nw b(1) srt(1) by (simp add: add_package_fields(1))
    show "nBlockSigOpsCost ?st' = 400 + sum_list (map ?s (vtx ?st'))"
      using nsg b(2) srt(2) by (simp add: add_package_fields(1))
    show "nBlockWeight ?st' \<le> nBlockMaxWeight opts" using nw sumw tw by simp
    show "nBlockSigOpsCost ?st' \<le> MAX_BLOCK_SIGOPS_COST opts" using nsg sums ts by simp
    show "modified_ok pool (set (inBlock ?st')) e" if "e \<in> set (mapModifiedTx ?st')" for e
      using amo that unfolding inB all_modified_ok_def list_all_iff by blast
    show "\<forall>a \<in> set (CalculateMemPoolAncestors pool x). a \<notin> set (inBlock ?st')"
      if x: "x \<in> set (mapTx pool)" "x \<notin> set (inBlock ?st')"
        "x \<notin> iter ` set (mapModifiedTx ?st')" "x \<notin> set (failedTx ?st')" for x
    proof
      fix a assume a: "a \<in> set (CalculateMemPoolAncestors pool x)"
      have ex: "entry_ok pool x" using ok x(1) by (rule mempool_okD)
      have xB: "x \<notin> ?B" and xP: "x \<notin> set ?P" using x(2) inB by simp_all
      have xf: "x \<notin> set (failedTx st)" using x(4) by (simp add: add_package_fields(4))
      have "a \<notin> set ?P"
      proof
        assume aP: "a \<in> set ?P"
        have "x \<in> set (CalculateDescendants pool a)" using entry_ok_anc(3) [OF ex a] .
        then have "x \<in> iter ` set (snd (UpdatePackagesForAdded pool ?P ?ms0))"
          using aP xP by (intro UpdatePackagesForAdded_adds [of a])
        then show False using x(3) ms' by simp
      qed
      moreover have "a \<notin> ?B"
      proof
        assume aB: "a \<in> ?B"
        have "x \<in> iter ` set (mapModifiedTx st)"
          using b(6) [OF x(1) xB _ xf a] aB by blast
        then obtain e where e: "e \<in> set (mapModifiedTx st)" "iter e = x" by auto
        then have "e \<in> set ?ms0" using xP by simp
        then have "x \<in> iter ` set ?ms0" using e(2) by force
        then have "x \<in> iter ` set (snd (UpdatePackagesForAdded pool ?P ?ms0))"
          using UpdatePackagesForAdded_keeps [of ?ms0 pool ?P] by blast
        then show False using x(3) ms' by simp
      qed
      ultimately show "a \<notin> set (inBlock ?st')" using inB by simp
    qed
  qed
qed

lemma budget_inv_step:
  assumes ok: "mempool_ok pool" and agg: "mempool_aggregates_ok pool" and oo: "options_ok opts"
    and sinv: "structure_inv pool st" and binv: "budget_inv opts pool st"
  shows "result_ok (budget_inv opts pool) (addPackageTxs_step opts pool st)"
proof (cases opts pool st rule: addPackageTxs_step_cases)
  case stop
  then show ?thesis using binv by (rule result_okI(2))
next
  case skip
  have "budget_inv opts pool (st\<lparr>mi := tl (mi st)\<rparr>)"
    using binv by (rule budget_inv_same) simp_all
  with skip(2) show ?thesis by (rule result_okI(1))
next
  case (failure it modit mi' e')
  have "it \<notin> set (inBlock st)" "it \<in> set (mapTx pool)"
    using candidate_valid [OF sinv failure(1,2)] by simp_all
  with failure(3) show ?thesis by simp
next
  case (low_fee it modit mi')
  have "budget_inv opts pool (st\<lparr>mi := mi'\<rparr>)"
    using binv by (rule budget_inv_same) simp_all
  with low_fee(2) show ?thesis by (rule result_okI(2))
next
  case (failed it modit mi' n)
  let ?f = "mark_failed it modit (st\<lparr>mi := mi'\<rparr>)"
  have b1: "budget_inv opts pool (st\<lparr>mi := mi'\<rparr>)"
    using binv by (rule budget_inv_same) simp_all
  have "it = iter m" if "modit = Some m" for m
    using choose_candidate_cases [OF failed(1)] that by auto
  with b1 have a: "budget_inv opts pool ?f" by (rule budget_inv_mark_failed)
  have b: "budget_inv opts pool (?f\<lparr>nConsecutiveFailed := n\<rparr>)"
    using a by (rule budget_inv_same) simp_all
  from failed(2) show ?thesis
  proof (elim disjE)
    assume "addPackageTxs_step opts pool st = Break (?f\<lparr>nConsecutiveFailed := n\<rparr>)"
    then show ?thesis using b by (rule result_okI(2))
  next
    assume "addPackageTxs_step opts pool st = Continue (?f\<lparr>nConsecutiveFailed := n\<rparr>)"
    then show ?thesis using b by (rule result_okI(1))
  next
    assume "addPackageTxs_step opts pool st = Continue ?f"
    then show ?thesis using a by (rule result_okI(1))
  qed
next
  case (added it modit mi')
  let ?st1 = "st\<lparr>mi := mi'\<rparr>"
  let ?B = "set (inBlock st)"
  have s1: "structure_inv pool ?st1"
    using sinv choose_candidate_mi [OF added(1)] by (rule structure_inv_mi)
  have b1: "budget_inv opts pool ?st1"
    using binv by (rule budget_inv_same) simp_all
  note c = candidate_budget [OF ok agg sinv binv added(1,2)]
  note f = aggregate_facts [OF ok agg added(4)]
  note b = budget_invD [OF binv]
  have vsub: "\<And>x. x \<in> set (vtx st) \<Longrightarrow> x \<in> set (mapTx pool)"
    using sinv unfolding structure_inv_def list_all_iff by blast
  have p0: "0 \<le> pending (size_of pool) pool ?B it" "0 \<le> pending (sigops_of pool) pool ?B it"
    using f(1,2,3,4) by (simp_all add: pending_bounds(1))
  have w0: "0 \<le> nBlockWeight st"
    using b(1) sum_list_nonneg_int [of "vtx st" "\<lambda>x. GetTxWeight (entry pool x)"]
      entry_weights(1) [OF agg] vsub by simp
  have s0: "0 \<le> nBlockSigOpsCost st"
    using b(2) sum_list_nonneg_int [of "vtx st" "\<lambda>x. GetSigOpCost (entry pool x)"]
      entry_weights(2) [OF agg] vsub by simp
  have tb: "nBlockWeight ?st1 + 4 * packageSize pool it modit < nBlockMaxWeight opts"
    "nBlockSigOpsCost ?st1 + packageSigOpsCost pool it modit < MAX_BLOCK_SIGOPS_COST opts"
    using added(5) oo c p0 w0 s0 b(3,4) by (intro TestPackage_bounds; simp)+
  have "budget_inv opts pool (add_package pool (package_of pool ?st1 it) ?st1)"
  proof (rule budget_inv_add_package [OF ok agg oo s1 b1])
    show "it \<in> set (mapTx pool)" by (rule added(4))
    show "it \<notin> set (inBlock ?st1)" using added(3) by simp
    show "nBlockWeight ?st1 + 4 * pending (size_of pool) pool (set (inBlock ?st1)) it
            < nBlockMaxWeight opts"
      using tb(1) c(1) by simp
    show "nBlockSigOpsCost ?st1 + pending (sigops_of pool) pool (set (inBlock ?st1)) it
            < MAX_BLOCK_SIGOPS_COST opts"
      using tb(2) c(3) by simp
  qed
  with added(6) show ?thesis by (rule result_okI(1))
qed

lemma result_ok_conj:
  assumes "result_ok P r" and "result_ok Q r"
  shows "result_ok (\<lambda>s. P s \<and> Q s) r"
  using assms by (cases r) (simp_all add: result_ok_def)

lemma example_pool_aggregates_ok: "mempool_aggregates_ok example_pool"
  by (simp add: mempool_aggregates_ok_def aggregates_ok_def example_pool_def example_entry_def
      WITNESS_SCALE_FACTOR_def)

lemma tight_options_ok: "options_ok tight_options"
  by (simp add: options_ok_def tight_options_def example_options_def)

lemma tight_run:
  "CreateNewBlock tight_options example_pool idle_assembler =
     Inr \<lparr>vtx = [1, 2, 3], vTxFees = [-1, 1000, 5000, 300], vTxSigOpsCost = [-1, 4, 8, 4],
        inBlock = [3, 2, 1], nBlockWeight = 5797,
        nBlockSigOpsCost = 416, nBlockTx = 3, nFees = 6300, mi = [],
        mapModifiedTx = [], failedTx = [4], nConsecutiveFailed = 0,
        nPackagesSelected = 2, nDescendantsUpdated = 1\<rparr>"
  by code_simp

text \<open>
  Claim C7.  On a mempool whose ancestor sets and aggregates are consistent, and with
  \<open>nBlockMaxWeight\<close> and \<open>MAX_BLOCK_SIGOPS_COST\<close> as the constructor and consensus.h leave
  them, the package-selection loop ends without a failed assertion, the weights of the
  transactions it adds plus the 4000 reserved for the coinbase are \<open>nBlockWeight\<close> and at
  most \<open>nBlockMaxWeight\<close>, and their sigop costs plus the 400 reserved for the coinbase are
  \<open>nBlockSigOpsCost\<close> and at most \<open>MAX_BLOCK_SIGOPS_COST\<close>.
\<close>

theorem C7_weight_and_sigops_within_limits:
  assumes "mempool_ok pool" and "mempool_aggregates_ok pool" and "options_ok opts"
  shows "\<exists>st. CreateNewBlock opts pool st0 = Inr st \<and>
           sum_list (map (\<lambda>x. GetTxWeight (entry pool x)) (vtx st)) + 4000
             \<le> nBlockMaxWeight opts \<and>
           sum_list (map (\<lambda>x. GetSigOpCost (entry pool x)) (vtx st)) + 400
             \<le> MAX_BLOCK_SIGOPS_COST opts \<and>
           nBlockWeight st = sum_list (map (\<lambda>x. GetTxWeight (entry pool x)) (vtx st)) + 4000 \<and>
           nBlockSigOpsCost st
             = sum_list (map (\<lambda>x. GetSigOpCost (entry pool x)) (vtx st)) + 400"
proof -
  let ?P = "\<lambda>s. structure_inv pool s \<and> budget_inv opts pool s"
  obtain s0 where s0: "CreateNewBlock opts pool st0 = addPackageTxs_loop opts pool s0"
    "vtx s0 = []" "inBlock s0 = []" "mapModifiedTx s0 = []" "failedTx s0 = []"
    "mi s0 = mapTx pool" "nBlockWeight s0 = 4000" "nBlockSigOpsCost s0 = 400"
    by (rule CreateNewBlock_start)
  have init: "?P s0"
    using structure_inv_start [OF s0(2,3,4,6)] budget_inv_start [OF assms(3) s0(2,3,4,7,8)]
    by blast
  have step: "result_ok ?P (addPackageTxs_step opts pool s)" if "?P s" for s
    using structure_inv_step [OF assms(1), of s opts] budget_inv_step [OF assms, of s] that
    by (intro result_ok_conj) blast+
  have "\<exists>st. addPackageTxs_loop opts pool s0 = Inr st \<and> ?P st"
    using step init by (rule loop_invariant)
  then obtain st where run: "CreateNewBlock opts pool st0 = Inr st" and b: "budget_inv opts pool st"
    using s0(1) by auto
  show ?thesis using run budget_invD(1-4) [OF b] by (intro exI [of _ st]) simp
qed

text \<open>
  C7 on the mempool of four transactions with \<open>nBlockMaxWeight = 6000\<close>: the package of
  2 and 1 takes the weight to 5200, the package of 4 would take it to 6200 and fails, and 3
  takes it to 5797.
\<close>

theorem C7_weight_and_sigops_within_limits_witness:
  "mempool_ok example_pool \<and> mempool_aggregates_ok example_pool \<and> options_ok tight_options \<and>
   (\<exists>st. CreateNewBlock tight_options example_pool idle_assembler = Inr st \<and>
      vtx st = [1, 2, 3] \<and>
      failedTx st = [4] \<and> nBlockWeight st = 5797 \<and> nBlockSigOpsCost st = 416 \<and>
      sum_list (map (\<lambda>x. GetTxWeight (entry example_pool x)) (vtx st)) + 4000
        \<le> nBlockMaxWeight tight_options \<and>
      sum_list (map (\<lambda>x. GetSigOpCost (entry example_pool x)) (vtx st)) + 400
        \<le> MAX_BLOCK_SIGOPS_COST tight_options)"
proof -
  obtain st where st: "CreateNewBlock tight_options example_pool idle_assembler = Inr st"
    and lim: "sum_list (map (\<lambda>x. GetTxWeight (entry example_pool x)) (vtx st)) + 4000
        \<le> nBlockMaxWeight tight_options"
      "sum_list (map (\<lambda>x. GetSigOpCost (entry example_pool x)) (vtx st)) + 400
        \<le> MAX_BLOCK_SIGOPS_COST tight_options"
    using C7_weight_and_sigops_within_limits
      [OF example_pool_ok example_pool_aggregates_ok tight_options_ok, of idle_assembler]
    by blast
  have "vtx st = [1, 2, 3]" "failedTx st = [4]" "nBlockWeight st = 5797"
    "nBlockSigOpsCost st = 416"
    using st by (auto simp: tight_run)
  then show ?thesis
    using example_pool_ok example_pool_aggregates_ok tight_options_ok st lim by blast
qed

end
